theory Spec2Isabelle
  imports Main
begin

section \<open>Python dictionaries\<close>

text \<open>
  A Python \<open>dict\<close> keeps its keys in insertion order: assigning to a key that is present
  replaces the value in place, assigning to a new key appends it. It is modelled as an
  association list with exactly this update.
\<close>

type_synonym ('k, 'v) dict = "('k \<times> 'v) list"

primrec dict_set :: "'k \<Rightarrow> 'v \<Rightarrow> ('k, 'v) dict \<Rightarrow> ('k, 'v) dict" where
  "dict_set k v [] = [(k, v)]"
| "dict_set k v (p # ps) = (if fst p = k then (k, v) # ps else p # dict_set k v ps)"

definition dict_keys :: "('k, 'v) dict \<Rightarrow> 'k list" where
  "dict_keys d = map fst d"

definition dict_has :: "'k \<Rightarrow> ('k, 'v) dict \<Rightarrow> bool" where
  "dict_has k d = (k \<in> set (dict_keys d))"

section \<open>The schema read by \<open>create_graph\<close>\<close>

text \<open>
  \<open>create_graph\<close> reads \<open>Base.metadata.sorted_tables\<close>, and of every table its
  \<open>name\<close> and its \<open>foreign_keys\<close>; of every foreign key it reads
  \<open>fk.constraint.column_keys\<close>, \<open>str(fk.column.table)\<close> and \<open>str(fk.column.name)\<close>.
  The foreign keys of a table are given in the order in which the loop visits them.
\<close>

record foreign_key =
  constraint_column_keys :: "string list"
  fk_column_table :: string
  fk_column_name :: string

record table =
  name :: string
  foreign_keys :: "foreign_key list"

type_synonym join_on = "(string \<times> string) \<times> (string \<times> string)"

datatype error = NameError | IndexError | NodeNotFound | NetworkXNoPath | KeyError

section \<open>The networkx graph\<close>

text \<open>
  \<open>nx.Graph\<close> is the class of the networkx library, whose code is not part of the
  repository; the model follows the library. \<open>add_node\<close>, \<open>add_edge\<close> and the edge
  lookup are its methods as \<open>create_graph\<close> and \<open>resolve_join\<close> call them.

  \<open>nx.Graph\<close> keeps a dictionary of nodes and a dictionary of dictionaries \<open>adj\<close>:
  \<open>adj[u][v]\<close> is the attribute dictionary of the edge between \<open>u\<close> and \<open>v\<close>, shared
  with \<open>adj[v][u]\<close>. The only attribute this program stores is \<open>join_on\<close>, so the
  attribute dictionary is modelled by its \<open>join_on\<close> value.
\<close>

record graph =
  node :: "string list"
  adj :: "(string, (string, join_on) dict) dict"

definition Graph :: graph where
  "Graph = \<lparr>node = [], adj = []\<rparr>"

definition adj_get :: "(string, (string, join_on) dict) dict \<Rightarrow> string \<Rightarrow> (string, join_on) dict" where
  "adj_get a u = (case map_of a u of None \<Rightarrow> [] | Some d \<Rightarrow> d)"

definition add_node :: "string \<Rightarrow> graph \<Rightarrow> graph" where
  "add_node n G =
     (if n \<in> set (node G) then G
      else G\<lparr>adj := dict_set n [] (adj G), node := node G @ [n]\<rparr>)"

definition add_edge :: "string \<Rightarrow> string \<Rightarrow> join_on \<Rightarrow> graph \<Rightarrow> graph" where
  "add_edge u v jo G =
     (let G1 = add_node u G;
          G2 = add_node v G1;
          a1 = dict_set u (dict_set v jo (adj_get (adj G2) u)) (adj G2);
          a2 = dict_set v (dict_set u jo (adj_get a1 v)) a1
      in G2\<lparr>adj := a2\<rparr>)"

text \<open>\<open>G.edges[(u, v)]['join_on']\<close>: a \<open>KeyError\<close> (here \<open>None\<close>) when there is no such edge.\<close>

definition edge_join_on :: "graph \<Rightarrow> string \<Rightarrow> string \<Rightarrow> join_on option" where
  "edge_join_on G u v = (case map_of (adj G) u of None \<Rightarrow> None | Some d \<Rightarrow> map_of d v)"

section \<open>\<open>create_graph\<close>\<close>

text \<open>
  The first loop adds a node per table and leaves its loop variable \<open>t\<close> bound to the
  last table visited.
\<close>

fun node_loop :: "table list \<Rightarrow> table option \<Rightarrow> graph \<Rightarrow> table option \<times> graph" where
  "node_loop [] t G = (t, G)"
| "node_loop (x # xs) t G = node_loop xs (Some x) (add_node (name x) G)"

text \<open>The inner loop over \<open>table.foreign_keys\<close>, with the \<open>table_name\<close> of the outer loop.\<close>

fun fk_loop :: "string \<Rightarrow> foreign_key list \<Rightarrow> graph \<Rightarrow> error + graph" where
  "fk_loop table_name [] G = Inr G"
| "fk_loop table_name (fk # fks) G =
     (case constraint_column_keys fk of
        [] \<Rightarrow> Inl IndexError
      | table_column # _ \<Rightarrow>
          (let fk_table = fk_column_table fk;
               fk_column = fk_column_name fk;
               join_on = ((table_name, table_column), (fk_table, fk_column))
           in fk_loop table_name fks (add_edge table_name fk_table join_on G)))"

text \<open>
  The outer loop runs over \<open>table\<close> but computes \<open>table_name = str(t.name)\<close> from the
  variable \<open>t\<close> of the first loop.
\<close>

fun table_loop :: "table option \<Rightarrow> table list \<Rightarrow> graph \<Rightarrow> error + graph" where
  "table_loop t [] G = Inr G"
| "table_loop t (table # tables) G =
     (case t of
        None \<Rightarrow> Inl NameError
      | Some t' \<Rightarrow>
          (case fk_loop (name t') (foreign_keys table) G of
             Inl e \<Rightarrow> Inl e
           | Inr G' \<Rightarrow> table_loop t tables G'))"

datatype io_event = PltFigure | NxDraw graph | PltShow

definition create_graph :: "table list \<Rightarrow> bool \<Rightarrow> error + (graph \<times> io_event list)" where
  "create_graph sorted_tables plot =
     (case node_loop sorted_tables None Graph of
        (t, G) \<Rightarrow>
          (case table_loop t sorted_tables G of
             Inl e \<Rightarrow> Inl e
           | Inr G' \<Rightarrow> Inr (G', if plot then [PltFigure, NxDraw G', PltShow] else [])))"

section \<open>\<open>nx.shortest_path\<close>\<close>

text \<open>
  \<open>nx.shortest_path\<close> is a function of the networkx library, whose code is not part of
  the repository; the model follows the library's routine for this call.

  With both endpoints given and no weight, \<open>nx.shortest_path\<close> is
  \<open>nx.bidirectional_shortest_path\<close>: a breadth-first search from both ends, which keeps
  the dictionary \<open>pred\<close> of predecessors towards the source and the dictionary \<open>succ\<close>
  of successors towards the target, and expands the smaller fringe one level at a time.

  The two branches of its loop are the same code with \<open>pred\<close> and \<open>succ\<close> exchanged,
  so one pair of functions models both: \<open>mine\<close> is the dictionary of the side being
  expanded, \<open>other\<close> that of the opposite side.
\<close>

type_synonym links = "(string, string option) dict"

datatype level_result =
    Raised error
  | Met links string
  | Expanded links "string list"

text \<open>
  \<open>for w in G.adj[v]: if w not in mine: fringe.append(w); mine[w] = v;
  if w in other: return\<close>
\<close>

fun scan_nbrs :: "string \<Rightarrow> string list \<Rightarrow> links \<Rightarrow> links \<Rightarrow> string list \<Rightarrow> level_result" where
  "scan_nbrs v [] mine other fringe = Expanded mine fringe"
| "scan_nbrs v (w # ws) mine other fringe =
     (let mine' = (if dict_has w mine then mine else dict_set w (Some v) mine);
          fringe' = (if dict_has w mine then fringe else fringe @ [w])
      in if dict_has w other then Met mine' w
         else scan_nbrs v ws mine' other fringe')"

text \<open>\<open>for v in this_level: ...\<close>; \<open>G.adj[v]\<close> is a \<open>KeyError\<close> when \<open>v\<close> is no node.\<close>

fun scan_level :: "graph \<Rightarrow> string list \<Rightarrow> links \<Rightarrow> links \<Rightarrow> string list \<Rightarrow> level_result" where
  "scan_level G [] mine other fringe = Expanded mine fringe"
| "scan_level G (v # vs) mine other fringe =
     (case map_of (adj G) v of
        None \<Rightarrow> Raised KeyError
      | Some d \<Rightarrow>
          (case scan_nbrs v (dict_keys d) mine other fringe of
             Expanded mine' fringe' \<Rightarrow> scan_level G vs mine' other fringe'
           | r \<Rightarrow> r))"

text \<open>Every name that occurs in the adjacency dictionaries.\<close>

definition verts :: "graph \<Rightarrow> string set" where
  "verts G = set (dict_keys (adj G)) \<union> (\<Union>d \<in> set (map snd (adj G)). set (dict_keys d))"

text \<open>
  The search ends: every level either adds a name of the graph to the dictionary of the
  side it expands, or leaves that side's fringe empty.
\<close>

lemma set_dict_keys_dict_set:
  "set (dict_keys (dict_set k v d)) = insert k (set (dict_keys d))"
  by (induction d) (auto simp: dict_keys_def)

lemma finite_verts: "finite (verts G)"
  by (simp add: verts_def)

lemma scan_nbrs_Expanded:
  "scan_nbrs v ws mine other fringe = Expanded mine' fringe' \<Longrightarrow>
     \<exists>new. fringe' = fringe @ new
        \<and> set (dict_keys mine') = set (dict_keys mine) \<union> set new
        \<and> set new \<inter> set (dict_keys mine) = {}
        \<and> set new \<subseteq> set ws"
proof (induction ws arbitrary: mine fringe)
  case Nil
  then show ?case by simp
next
  case (Cons w ws)
  show ?case
  proof (cases "dict_has w mine")
    case True
    with Cons.prems have "scan_nbrs v ws mine other fringe = Expanded mine' fringe'"
      by (simp split: if_splits)
    from Cons.IH [OF this] show ?thesis by auto
  next
    case False
    with Cons.prems
    have "scan_nbrs v ws (dict_set w (Some v) mine) other (fringe @ [w]) = Expanded mine' fringe'"
      by (simp add: Let_def split: if_splits)
    from Cons.IH [OF this] obtain new where
      n: "fringe' = (fringe @ [w]) @ new"
         "set (dict_keys mine') = set (dict_keys (dict_set w (Some v) mine)) \<union> set new"
         "set new \<inter> set (dict_keys (dict_set w (Some v) mine)) = {}"
         "set new \<subseteq> set ws"
      by blast
    have "fringe' = fringe @ (w # new)" using n(1) by simp
    moreover have "set (dict_keys mine') = set (dict_keys mine) \<union> set (w # new)"
      using n(2) by (simp add: set_dict_keys_dict_set)
    moreover have "set (w # new) \<inter> set (dict_keys mine) = {}"
      using n(3) False by (auto simp: set_dict_keys_dict_set dict_has_def)
    moreover have "set (w # new) \<subseteq> set (w # ws)" using n(4) by auto
    ultimately show ?thesis by blast
  qed
qed

lemma map_of_adj_verts:
  "map_of (adj G) v = Some d \<Longrightarrow> set (dict_keys d) \<subseteq> verts G"
  by (force simp: verts_def dest!: map_of_SomeD)

lemma scan_level_Expanded:
  "scan_level G vs mine other fringe = Expanded mine' fringe' \<Longrightarrow>
     \<exists>new. fringe' = fringe @ new
        \<and> set (dict_keys mine') = set (dict_keys mine) \<union> set new
        \<and> set new \<inter> set (dict_keys mine) = {}
        \<and> set new \<subseteq> verts G"
proof (induction vs arbitrary: mine fringe)
  case Nil
  then show ?case by simp
next
  case (Cons v vs)
  from Cons.prems obtain d m1 f1 where
    d: "map_of (adj G) v = Some d"
    and s1: "scan_nbrs v (dict_keys d) mine other fringe = Expanded m1 f1"
    and s2: "scan_level G vs m1 other f1 = Expanded mine' fringe'"
    by (auto split: option.splits level_result.splits)
  from scan_nbrs_Expanded [OF s1] obtain n1 where
    n1: "f1 = fringe @ n1" "set (dict_keys m1) = set (dict_keys mine) \<union> set n1"
        "set n1 \<inter> set (dict_keys mine) = {}" "set n1 \<subseteq> set (dict_keys d)"
    by blast
  from Cons.IH [OF s2] obtain n2 where
    n2: "fringe' = f1 @ n2" "set (dict_keys mine') = set (dict_keys m1) \<union> set n2"
        "set n2 \<inter> set (dict_keys m1) = {}" "set n2 \<subseteq> verts G"
    by blast
  have "fringe' = fringe @ (n1 @ n2)" using n1(1) n2(1) by simp
  moreover have "set (dict_keys mine') = set (dict_keys mine) \<union> set (n1 @ n2)"
    using n1(2) n2(2) by auto
  moreover have "set (n1 @ n2) \<inter> set (dict_keys mine) = {}"
    using n1(2,3) n2(3) by auto
  moreover have "set (n1 @ n2) \<subseteq> verts G"
    using n1(4) n2(4) map_of_adj_verts [OF d] by auto
  ultimately show ?case by blast
qed

lemma scan_level_measure:
  assumes "scan_level G vs mine other [] = Expanded mine' fringe'"
  shows "(if fringe' = [] then 0 else 2) + 2 * card (verts G - set (dict_keys mine'))
           \<le> 2 * card (verts G - set (dict_keys mine))"
proof -
  from scan_level_Expanded [OF assms] have
    k: "set (dict_keys mine') = set (dict_keys mine) \<union> set fringe'"
    and dj: "set fringe' \<inter> set (dict_keys mine) = {}"
    and sub: "set fringe' \<subseteq> verts G"
    by auto
  show ?thesis
  proof (cases "fringe' = []")
    case True
    with k show ?thesis by simp
  next
    case False
    then obtain x where x: "x \<in> set fringe'" by (cases fringe') auto
    have "verts G - set (dict_keys mine') \<subset> verts G - set (dict_keys mine)"
      using k dj sub x by auto
    then have "card (verts G - set (dict_keys mine')) < card (verts G - set (dict_keys mine))"
      by (intro psubset_card_mono) (simp_all add: finite_verts)
    with False show ?thesis by simp
  qed
qed

text \<open>
  \<open>while forward_fringe and reverse_fringe: ...\<close>, followed by
  \<open>raise nx.NetworkXNoPath\<close>.
\<close>

function bfs_loop :: "graph \<Rightarrow> links \<Rightarrow> links \<Rightarrow> string list \<Rightarrow> string list \<Rightarrow> error + (links \<times> links \<times> string)" where
  "bfs_loop G pred succ forward_fringe reverse_fringe =
     (if forward_fringe \<noteq> [] \<and> reverse_fringe \<noteq> [] then
        (if length forward_fringe \<le> length reverse_fringe then
           (case scan_level G forward_fringe pred succ [] of
              Raised e \<Rightarrow> Inl e
            | Met pred' w \<Rightarrow> Inr (pred', succ, w)
            | Expanded pred' fringe' \<Rightarrow> bfs_loop G pred' succ fringe' reverse_fringe)
         else
           (case scan_level G reverse_fringe succ pred [] of
              Raised e \<Rightarrow> Inl e
            | Met succ' w \<Rightarrow> Inr (pred, succ', w)
            | Expanded succ' fringe' \<Rightarrow> bfs_loop G pred succ' forward_fringe fringe'))
      else Inl NetworkXNoPath)"
  by pat_completeness auto
termination
proof (relation "measure (\<lambda>(G, pred, succ, ff, rf).
      2 * (card (verts G - set (dict_keys pred)) + card (verts G - set (dict_keys succ)))
      + (if ff \<noteq> [] \<and> rf \<noteq> [] then 1 else 0))", goal_cases)
  case 1
  show ?case by simp
next
  case (2 G pred succ ff rf pred' fringe')
  from scan_level_measure [OF 2(3)] 2(1) show ?case
    by (auto split: if_splits)
next
  case (3 G pred succ ff rf succ' fringe')
  from scan_level_measure [OF 3(3)] 3(1) show ?case
    by (auto split: if_splits)
qed

text \<open>
  \<open>_bidirectional_pred_succ\<close>: the search proper, with its shortcut for equal endpoints.
\<close>

definition bidirectional_pred_succ :: "graph \<Rightarrow> string \<Rightarrow> string \<Rightarrow> error + (links \<times> links \<times> string)" where
  "bidirectional_pred_succ G source target =
     (if target = source then Inr ([(target, None)], [(source, None)], source)
      else bfs_loop G [(source, None)] [(target, None)] [source] [target])"

text \<open>
  \<open>while w is not None: path.append(w); w = d[w]\<close>. The loop follows the links of a
  dictionary; \<open>d[w]\<close> is a \<open>KeyError\<close> when \<open>w\<close> is no key. A chain that visits more
  keys than \<open>d\<close> holds has entered a cycle, which the loop follows forever: the fuel is the
  number of entries of \<open>d\<close>, and \<open>None\<close> is the loop that does not return.
\<close>

fun follow :: "nat \<Rightarrow> links \<Rightarrow> string option \<Rightarrow> (error + string list) option" where
  "follow fuel d None = Some (Inr [])"
| "follow 0 d (Some w) = None"
| "follow (Suc fuel) d (Some w) =
     (case map_of d w of
        None \<Rightarrow> Some (Inl KeyError)
      | Some w' \<Rightarrow>
          (case follow fuel d w' of
             None \<Rightarrow> None
           | Some (Inl e) \<Rightarrow> Some (Inl e)
           | Some (Inr p) \<Rightarrow> Some (Inr (w # p))))"

text \<open>
  \<open>bidirectional_shortest_path\<close>: the path from the meeting node \<open>w\<close> back to the source,
  reversed, then from \<open>succ[path[-1]]\<close> on to the target.
\<close>

definition bidirectional_shortest_path :: "graph \<Rightarrow> string \<Rightarrow> string \<Rightarrow> (error + string list) option" where
  "bidirectional_shortest_path G source target =
     (if source \<notin> set (node G) \<or> target \<notin> set (node G) then Some (Inl NodeNotFound)
      else
        (case bidirectional_pred_succ G source target of
           Inl e \<Rightarrow> Some (Inl e)
         | Inr (pred, succ, w) \<Rightarrow>
             (case follow (length pred) pred (Some w) of
                None \<Rightarrow> None
              | Some (Inl e) \<Rightarrow> Some (Inl e)
              | Some (Inr back) \<Rightarrow>
                  (case map_of succ (last (rev back)) of
                     None \<Rightarrow> Some (Inl KeyError)
                   | Some w' \<Rightarrow>
                       (case follow (length succ) succ w' of
                          None \<Rightarrow> None
                        | Some (Inl e) \<Rightarrow> Some (Inl e)
                        | Some (Inr forth) \<Rightarrow> Some (Inr (rev back @ forth)))))))"

definition shortest_path :: "graph \<Rightarrow> string \<Rightarrow> string \<Rightarrow> (error + string list) option" where
  "shortest_path G source target = bidirectional_shortest_path G source target"

section \<open>\<open>resolve_join\<close>\<close>

text \<open>
  The loop over \<open>enumerate(path)\<close>: for every table but the last it reads the
  \<open>join_on\<close> of the edge to the next table, and records it under the next table unless
  that table is a key of \<open>joins\<close> already.
\<close>

fun join_loop :: "graph \<Rightarrow> string list \<Rightarrow> (string, join_on) dict \<Rightarrow> error + (string, join_on) dict" where
  "join_loop G [] joins = Inr joins"
| "join_loop G [table] joins = Inr joins"
| "join_loop G (table # nxt # rest) joins =
     (case edge_join_on G table nxt of
        None \<Rightarrow> Inl KeyError
      | Some join_on \<Rightarrow>
          join_loop G (nxt # rest)
            (if dict_has nxt joins then joins else dict_set nxt join_on joins))"

type_synonym join = "string \<times> (string \<times> string) \<times> (string \<times> string)"

text \<open>Lines 152 to 169: from the path to the list of joins.\<close>

definition joins_of_path :: "graph \<Rightarrow> string list \<Rightarrow> error + join list" where
  "joins_of_path G path =
     (case join_loop G path [] of
        Inl e \<Rightarrow> Inl e
      | Inr joins \<Rightarrow> Inr (map (\<lambda>(table, join_on). (table, fst join_on, snd join_on)) joins))"

definition resolve_join :: "graph \<Rightarrow> string \<Rightarrow> string \<Rightarrow> (error + join list) option" where
  "resolve_join G table_start table_end =
     (case shortest_path G table_start table_end of
        None \<Rightarrow> None
      | Some (Inl e) \<Rightarrow> Some (Inl e)
      | Some (Inr path) \<Rightarrow> Some (joins_of_path G path))"

section \<open>The library catalog of the source\<close>

text \<open>
  The tables \<open>catalogs\<close>, \<open>authors\<close> and \<open>books\<close> of the source, in the order of
  \<open>sorted_tables\<close>: tables sorted by name, those that reference others after them.
\<close>

definition author_fk :: foreign_key where
  "author_fk = \<lparr>constraint_column_keys = [''author_id''],
     fk_column_table = ''authors'', fk_column_name = ''id''\<rparr>"

definition catalog_fk :: foreign_key where
  "catalog_fk = \<lparr>constraint_column_keys = [''catalog_id''],
     fk_column_table = ''catalogs'', fk_column_name = ''id''\<rparr>"

definition library_tables :: "foreign_key list \<Rightarrow> table list" where
  "library_tables book_fks =
     [\<lparr>name = ''authors'', foreign_keys = []\<rparr>,
      \<lparr>name = ''catalogs'', foreign_keys = []\<rparr>,
      \<lparr>name = ''books'', foreign_keys = book_fks\<rparr>]"

section \<open>The invariant of the graph\<close>

text \<open>
  What networkx keeps true of a \<open>Graph\<close>: the adjacency dictionary has the nodes as its
  keys, in the same order; a dictionary has every key once; and the edge between \<open>u\<close>
  and \<open>v\<close> is the edge between \<open>v\<close> and \<open>u\<close>, with the same attributes.
\<close>

definition graph_inv :: "graph \<Rightarrow> bool" where
  "graph_inv G \<longleftrightarrow>
     dict_keys (adj G) = node G \<and> distinct (node G)
     \<and> (\<forall>u d. map_of (adj G) u = Some d \<longrightarrow> distinct (dict_keys d))
     \<and> (\<forall>u v. edge_join_on G u v = edge_join_on G v u)"

lemma map_of_dict_set: "map_of (dict_set k v d) = (map_of d)(k \<mapsto> v)"
  by (induction d) (auto simp: fun_eq_iff)

lemma dict_keys_dict_set:
  "dict_keys (dict_set k v d) = (if k \<in> set (dict_keys d) then dict_keys d else dict_keys d @ [k])"
  by (induction d) (auto simp: dict_keys_def)

lemma distinct_dict_set: "distinct (dict_keys d) \<Longrightarrow> distinct (dict_keys (dict_set k v d))"
  by (simp add: dict_keys_dict_set)

lemma map_of_None_keys: "map_of d k = None \<longleftrightarrow> k \<notin> set (dict_keys d)"
  by (simp add: dict_keys_def map_of_eq_None_iff)

lemma edge_join_on_adj_get: "edge_join_on G u v = map_of (adj_get (adj G) u) v"
  by (simp add: edge_join_on_def adj_get_def split: option.splits)

lemma adj_get_dict_set: "adj_get (dict_set k d a) x = (if x = k then d else adj_get a x)"
  by (simp add: adj_get_def map_of_dict_set)

lemma graph_inv_Graph: "graph_inv Graph"
  by (simp add: graph_inv_def Graph_def dict_keys_def edge_join_on_def)

lemma adj_get_add_node:
  "dict_keys (adj G) = node G \<Longrightarrow> adj_get (adj (add_node n G)) x = adj_get (adj G) x"
proof (cases "n \<in> set (node G)")
  case True
  then show ?thesis by (simp add: add_node_def)
next
  case False
  assume "dict_keys (adj G) = node G"
  with False have "map_of (adj G) n = None" by (simp add: map_of_None_keys)
  then have "adj_get (adj G) n = []" by (simp add: adj_get_def)
  with False show ?thesis by (simp add: add_node_def adj_get_dict_set)
qed

lemma keys_add_node:
  "dict_keys (adj G) = node G \<Longrightarrow> dict_keys (adj (add_node n G)) = node (add_node n G)"
  by (simp add: add_node_def dict_keys_dict_set)

lemma node_add_node: "node (add_node n G) = (if n \<in> set (node G) then node G else node G @ [n])"
  by (simp add: add_node_def)

lemma graph_inv_add_node: "graph_inv G \<Longrightarrow> graph_inv (add_node n G)"
  unfolding graph_inv_def
  apply (intro conjI)
     apply (simp add: keys_add_node)
    apply (simp add: node_add_node)
   apply (auto simp: add_node_def map_of_dict_set dict_keys_def split: if_splits)[1]
  apply (simp add: edge_join_on_adj_get adj_get_add_node)
  done

lemma node_add_edge: "node (add_edge u v jo G) = node (add_node v (add_node u G))"
  by (simp add: add_edge_def Let_def)

lemma adj_get_add_edge:
  "dict_keys (adj G) = node G \<Longrightarrow>
   adj_get (adj (add_edge a b jo G)) x =
     (if x = b then dict_set a jo (if a = b then dict_set b jo (adj_get (adj G) a) else adj_get (adj G) b)
      else if x = a then dict_set b jo (adj_get (adj G) a)
      else adj_get (adj G) x)"
  by (simp add: add_edge_def Let_def adj_get_dict_set adj_get_add_node keys_add_node)

lemma edge_join_on_add_edge:
  "dict_keys (adj G) = node G \<Longrightarrow>
   edge_join_on (add_edge a b jo G) u v =
     (if (u = a \<and> v = b) \<or> (u = b \<and> v = a) then Some jo else edge_join_on G u v)"
  by (simp add: edge_join_on_adj_get adj_get_add_edge map_of_dict_set)

lemma keys_add_edge:
  "dict_keys (adj G) = node G \<Longrightarrow> dict_keys (adj (add_edge a b jo G)) = node (add_edge a b jo G)"
  by (auto simp: add_edge_def Let_def dict_keys_dict_set keys_add_node node_add_node)

lemma map_of_adj_Some: "map_of (adj G) u = Some d \<Longrightarrow> adj_get (adj G) u = d"
  by (simp add: adj_get_def)

lemma distinct_adj_get:
  "(\<forall>u d. map_of (adj G) u = Some d \<longrightarrow> distinct (dict_keys d)) \<longleftrightarrow> (\<forall>u. distinct (dict_keys (adj_get (adj G) u)))"
  by (auto simp: adj_get_def dict_keys_def split: option.splits)

lemma graph_inv_add_edge: "graph_inv G \<Longrightarrow> graph_inv (add_edge a b jo G)"
  unfolding graph_inv_def distinct_adj_get
  apply (intro conjI)
     apply (simp add: keys_add_edge)
    apply (simp add: node_add_edge node_add_node)
   apply (simp add: adj_get_add_edge distinct_dict_set)
  apply (simp add: edge_join_on_add_edge)
  done


subsection \<open>The loops of \<open>create_graph\<close>\<close>

lemma node_loop_fst: "fst (node_loop xs t G) = (if xs = [] then t else Some (last xs))"
  by (induction xs arbitrary: t G) auto

lemma graph_inv_node_loop: "graph_inv G \<Longrightarrow> graph_inv (snd (node_loop xs t G))"
  by (induction xs arbitrary: t G) (auto simp: graph_inv_add_node)

lemma graph_inv_fk_loop: "graph_inv G \<Longrightarrow> fk_loop tn fks G = Inr G' \<Longrightarrow> graph_inv G'"
proof (induction fks arbitrary: G)
  case Nil
  then show ?case by simp
next
  case (Cons fk fks)
  from Cons.prems(2) obtain c cs where c: "constraint_column_keys fk = c # cs"
    by (cases "constraint_column_keys fk") auto
  let ?G1 = "add_edge tn (fk_column_table fk) ((tn, c), (fk_column_table fk, fk_column_name fk)) G"
  from Cons.prems(2) c have "fk_loop tn fks ?G1 = Inr G'" by (simp add: Let_def)
  moreover have "graph_inv ?G1" using Cons.prems(1) by (rule graph_inv_add_edge)
  ultimately show ?case using Cons.IH by blast
qed

lemma graph_inv_table_loop: "graph_inv G \<Longrightarrow> table_loop t ts G = Inr G' \<Longrightarrow> graph_inv G'"
proof (induction ts arbitrary: G)
  case Nil
  then show ?case by simp
next
  case (Cons x ts)
  then show ?case
    by (auto split: option.splits sum.splits dest: graph_inv_fk_loop)
qed

lemma create_graph_Inr:
  "create_graph s plot = Inr (g, io) \<longleftrightarrow>
     table_loop (if s = [] then None else Some (last s)) s (snd (node_loop s None Graph)) = Inr g
     \<and> io = (if plot then [PltFigure, NxDraw g, PltShow] else [])"
proof -
  obtain t G where tg: "node_loop s None Graph = (t, G)" by (cases "node_loop s None Graph")
  from node_loop_fst [of s None Graph] tg have "t = (if s = [] then None else Some (last s))"
    by simp
  with tg show ?thesis
    by (auto simp: create_graph_def split: sum.splits)
qed

lemma graph_inv_create_graph: "create_graph s plot = Inr (g, io) \<Longrightarrow> graph_inv g"
  by (auto simp: create_graph_Inr intro: graph_inv_table_loop graph_inv_node_loop graph_inv_Graph)

lemma fk_loop_append:
  "fk_loop tn (xs @ ys) G = (case fk_loop tn xs G of Inl e \<Rightarrow> Inl e | Inr G' \<Rightarrow> fk_loop tn ys G')"
  by (induction xs arbitrary: G) (auto simp: Let_def split: list.splits)

lemma table_loop_append:
  "table_loop t (xs @ ys) G = (case table_loop t xs G of Inl e \<Rightarrow> Inl e | Inr G' \<Rightarrow> table_loop t ys G')"
  by (induction xs arbitrary: G) (auto split: option.splits sum.splits)

lemma fk_loop_succeeds:
  "\<forall>fk\<in>set fks. constraint_column_keys fk \<noteq> [] \<Longrightarrow> \<exists>G'. fk_loop tn fks G = Inr G'"
  by (induction fks arbitrary: G) (auto simp: Let_def split: list.splits)

lemma table_loop_succeeds:
  "\<forall>x\<in>set ts. \<forall>fk\<in>set (foreign_keys x). constraint_column_keys fk \<noteq> [] \<Longrightarrow>
     \<exists>G'. table_loop (Some t) ts G = Inr G'"
proof (induction ts arbitrary: G)
  case Nil
  then show ?case by simp
next
  case (Cons x ts)
  then obtain G1 where "fk_loop (name t) (foreign_keys x) G = Inr G1"
    using fk_loop_succeeds [of "foreign_keys x" "name t" G] by auto
  with Cons show ?case by auto
qed

lemma create_graph_succeeds:
  assumes "\<forall>x\<in>set s. \<forall>fk\<in>set (foreign_keys x). constraint_column_keys fk \<noteq> []"
  shows "\<exists>g. create_graph s plot = Inr (g, if plot then [PltFigure, NxDraw g, PltShow] else [])"
proof (cases "s = []")
  case True
  then show ?thesis by (simp add: create_graph_def)
next
  case False
  with table_loop_succeeds [OF assms, of "last s" "snd (node_loop s None Graph)"]
  show ?thesis by (auto simp: create_graph_Inr)
qed

text \<open>An edge that no foreign key of the loop touches keeps its \<open>join_on\<close>.\<close>

lemma fk_loop_untouched:
  assumes "fk_loop tn fks G = Inr G'" and "graph_inv G"
    and "\<forall>fk\<in>set fks. \<not> ((u = tn \<and> v = fk_column_table fk) \<or> (u = fk_column_table fk \<and> v = tn))"
  shows "edge_join_on G' u v = edge_join_on G u v"
  using assms
proof (induction fks arbitrary: G)
  case Nil
  then show ?case by simp
next
  case (Cons fk fks)
  from Cons.prems(1) obtain c cs where c: "constraint_column_keys fk = c # cs"
    by (cases "constraint_column_keys fk") auto
  let ?G1 = "add_edge tn (fk_column_table fk) ((tn, c), (fk_column_table fk, fk_column_name fk)) G"
  from Cons.prems(1) c have 1: "fk_loop tn fks ?G1 = Inr G'" by (simp add: Let_def)
  have 2: "graph_inv ?G1" using Cons.prems(2) by (rule graph_inv_add_edge)
  have "edge_join_on G' u v = edge_join_on ?G1 u v"
    using Cons.IH [OF 1 2] Cons.prems(3) by simp
  also have "\<dots> = edge_join_on G u v"
  proof -
    have k: "dict_keys (adj G) = node G" using Cons.prems(2) by (simp add: graph_inv_def)
    show ?thesis using Cons.prems(3) by (auto simp: edge_join_on_add_edge [OF k])
  qed
  finally show ?case .
qed

lemma table_loop_untouched:
  assumes "table_loop (Some t) ts G = Inr G'" and "graph_inv G"
    and "\<forall>x\<in>set ts. \<forall>fk\<in>set (foreign_keys x).
           \<not> ((u = name t \<and> v = fk_column_table fk) \<or> (u = fk_column_table fk \<and> v = name t))"
  shows "edge_join_on G' u v = edge_join_on G u v"
  using assms
proof (induction ts arbitrary: G)
  case Nil
  then show ?case by simp
next
  case (Cons x ts)
  from Cons.prems(1) obtain G1 where
    1: "fk_loop (name t) (foreign_keys x) G = Inr G1" and 2: "table_loop (Some t) ts G1 = Inr G'"
    by (auto split: sum.splits)
  have 3: "graph_inv G1" using Cons.prems(2) 1 by (rule graph_inv_fk_loop)
  have "edge_join_on G' u v = edge_join_on G1 u v"
    using Cons.IH [OF 2 3] Cons.prems(3) by simp
  also have "\<dots> = edge_join_on G u v"
    using fk_loop_untouched [OF 1 Cons.prems(2)] Cons.prems(3) by simp
  finally show ?case .
qed

definition library_graph :: graph where
  "library_graph =
     \<lparr>node = [''authors'', ''catalogs'', ''books''],
      adj = [(''authors'', [(''books'', (''books'', ''author_id''), (''authors'', ''id''))]),
             (''catalogs'', [(''books'', (''books'', ''catalog_id''), (''catalogs'', ''id''))]),
             (''books'', [(''authors'', (''books'', ''author_id''), (''authors'', ''id'')),
                         (''catalogs'', (''books'', ''catalog_id''), (''catalogs'', ''id''))])]\<rparr>"

lemma create_graph_library:
  "create_graph (library_tables [author_fk, catalog_fk]) False = Inr (library_graph, [])"
  by code_simp

lemma graph_inv_library_graph: "graph_inv library_graph"
  using create_graph_library by (rule graph_inv_create_graph)

subsection \<open>The loop of \<open>resolve_join\<close>\<close>

lemma dict_set_absent: "k \<notin> set (dict_keys d) \<Longrightarrow> dict_set k v d = d @ [(k, v)]"
  by (induction d) (auto simp: dict_keys_def)

lemma remdups_snoc: "remdups (zs @ [n]) = remdups (filter (\<lambda>x. x \<noteq> n) zs) @ [n]"
  by (induction zs) auto

lemma first_seen_Cons:
  "rev (remdups (rev (n # ys))) = n # rev (remdups (rev (filter (\<lambda>x. x \<noteq> n) ys)))"
  by (simp add: remdups_snoc rev_filter)

lemma join_loop_keys:
  "join_loop G path joins = Inr joins' \<Longrightarrow>
     dict_keys joins' =
       dict_keys joins @ rev (remdups (rev (filter (\<lambda>x. x \<notin> set (dict_keys joins)) (tl path))))"
proof (induction G path joins rule: join_loop.induct)
  case (1 G joins)
  then show ?case by simp
next
  case (2 G table joins)
  then show ?case by simp
next
  case (3 G table nxt rest joins)
  from "3.prems" obtain jo where jo: "edge_join_on G table nxt = Some jo"
    by (auto split: option.splits)
  let ?joins1 = "if dict_has nxt joins then joins else dict_set nxt jo joins"
  from "3.prems" jo have run: "join_loop G (nxt # rest) ?joins1 = Inr joins'" by simp
  note IH = "3.IH" [OF jo run]
  show ?case
  proof (cases "dict_has nxt joins")
    case True
    with IH show ?thesis by (simp add: dict_has_def)
  next
    case False
    then have n: "nxt \<notin> set (dict_keys joins)" by (simp add: dict_has_def)
    have k: "dict_keys ?joins1 = dict_keys joins @ [nxt]"
      using False n by (simp add: dict_set_absent dict_keys_def)
    have f: "filter (\<lambda>x. x \<notin> set (dict_keys joins @ [nxt])) rest
           = filter (\<lambda>x. x \<noteq> nxt) (filter (\<lambda>x. x \<notin> set (dict_keys joins)) rest)"
      by (induction rest) auto
    let ?P = "\<lambda>x. x \<notin> set (dict_keys joins)"
    have "rev (remdups (rev (filter ?P (tl (table # nxt # rest)))))
        = rev (remdups (rev (nxt # filter ?P rest)))"
      using n by simp
    also have "\<dots> = nxt # rev (remdups (rev (filter (\<lambda>x. x \<noteq> nxt) (filter ?P rest))))"
      by (rule first_seen_Cons)
    finally have r: "rev (remdups (rev (filter ?P (tl (table # nxt # rest)))))
        = nxt # rev (remdups (rev (filter (\<lambda>x. x \<noteq> nxt) (filter ?P rest))))" .
    have "dict_keys joins' = dict_keys ?joins1
        @ rev (remdups (rev (filter (\<lambda>x. x \<notin> set (dict_keys ?joins1)) rest)))"
      using IH by (simp only: list.sel)
    then have "dict_keys joins' = (dict_keys joins @ [nxt])
        @ rev (remdups (rev (filter (\<lambda>x. x \<noteq> nxt) (filter ?P rest))))"
      by (simp only: k f)
    with r show ?thesis by (simp only: append_assoc append_Cons append_Nil)
  qed
qed

text \<open>\<open>G.has_edge(u, v)\<close>\<close>

definition has_edge :: "graph \<Rightarrow> string \<Rightarrow> string \<Rightarrow> bool" where
  "has_edge G u v = (edge_join_on G u v \<noteq> None)"

lemma join_loop_result:
  "join_loop G path joins =
     (if successively (has_edge G) path
      then Inr (case join_loop G path joins of Inr j \<Rightarrow> j | Inl e \<Rightarrow> [])
      else Inl KeyError)"
  by (induction G path joins rule: join_loop.induct)
     (auto simp: has_edge_def split: option.splits)

subsection \<open>What \<open>create_graph\<close> reads of a foreign key\<close>

lemma create_graph_alt:
  "create_graph s plot =
     (case table_loop (if s = [] then None else Some (last s)) s (snd (node_loop s None Graph)) of
        Inl e \<Rightarrow> Inl e
      | Inr G' \<Rightarrow> Inr (G', if plot then [PltFigure, NxDraw G', PltShow] else []))"
proof -
  obtain t G where tg: "node_loop s None Graph = (t, G)" by (cases "node_loop s None Graph")
  from node_loop_fst [of s None Graph] tg have "t = (if s = [] then None else Some (last s))"
    by simp
  with tg show ?thesis by (simp add: create_graph_def)
qed

text \<open>The table with every list of constrained columns cut after its first column.\<close>

definition first_column_only :: "table \<Rightarrow> table" where
  "first_column_only t =
     t\<lparr>foreign_keys :=
        map (\<lambda>fk. fk\<lparr>constraint_column_keys := take 1 (constraint_column_keys fk)\<rparr>)
          (foreign_keys t)\<rparr>"

lemma fk_loop_take1:
  "fk_loop tn (map (\<lambda>fk. fk\<lparr>constraint_column_keys := take (Suc 0) (constraint_column_keys fk)\<rparr>) fks) G
     = fk_loop tn fks G"
  by (induction fks arbitrary: G) (auto simp: Let_def split: list.splits)

lemma table_loop_first_column_only:
  "name t' = name t \<Longrightarrow>
     table_loop (Some t') (map first_column_only ts) G = table_loop (Some t) ts G"
  by (induction ts arbitrary: G) (auto simp: first_column_only_def fk_loop_take1 split: sum.splits)

lemma node_loop_snd_names:
  "map name xs = map name ys \<Longrightarrow> snd (node_loop xs t G) = snd (node_loop ys t' G)"
proof (induction xs arbitrary: ys t t' G)
  case Nil
  then show ?case by simp
next
  case (Cons x xs)
  then obtain y ys' where "ys = y # ys'" "name x = name y" "map name xs = map name ys'"
    by (cases ys) auto
  with Cons.IH show ?case by simp
qed

lemma create_graph_first_column:
  "create_graph (map first_column_only s) plot = create_graph s plot"
proof (cases "s = []")
  case True
  then show ?thesis by simp
next
  case False
  have n: "snd (node_loop (map first_column_only s) None Graph) = snd (node_loop s None Graph)"
    by (rule node_loop_snd_names) (simp add: first_column_only_def)
  have l: "last (map first_column_only s) = first_column_only (last s)"
    using False by (simp add: last_map)
  have "table_loop (Some (first_column_only (last s))) (map first_column_only s)
           (snd (node_loop s None Graph))
        = table_loop (Some (last s)) s (snd (node_loop s None Graph))"
    by (rule table_loop_first_column_only) (simp add: first_column_only_def)
  with False n l show ?thesis by (simp add: create_graph_alt)
qed

text \<open>Where the \<open>join_on\<close> of an edge comes from.\<close>

lemma edge_join_on_node_loop:
  "graph_inv G \<Longrightarrow> edge_join_on (snd (node_loop xs t G)) u v = edge_join_on G u v"
proof (induction xs arbitrary: t G)
  case Nil
  then show ?case by simp
next
  case (Cons x xs)
  have "edge_join_on (add_node (name x) G) u v = edge_join_on G u v"
    using Cons.prems by (simp add: edge_join_on_adj_get adj_get_add_node graph_inv_def)
  with Cons.IH [OF graph_inv_add_node [OF Cons.prems]] show ?case by simp
qed

text \<open>The \<open>join_on\<close> computed for a foreign key under the table name \<open>tn\<close>.\<close>

definition join_on_of :: "string \<Rightarrow> foreign_key \<Rightarrow> join_on" where
  "join_on_of tn fk = ((tn, hd (constraint_column_keys fk)), (fk_column_table fk, fk_column_name fk))"

lemma fk_loop_origin:
  assumes "fk_loop tn fks G = Inr G'" and "graph_inv G" and "edge_join_on G' u v = Some jo"
  shows "edge_join_on G u v = Some jo
       \<or> (\<exists>fk\<in>set fks. constraint_column_keys fk \<noteq> [] \<and> jo = join_on_of tn fk
             \<and> ((u = tn \<and> v = fk_column_table fk) \<or> (u = fk_column_table fk \<and> v = tn)))"
  using assms
proof (induction fks arbitrary: G)
  case Nil
  then show ?case by simp
next
  case (Cons fk fks)
  from Cons.prems(1) obtain c cs where c: "constraint_column_keys fk = c # cs"
    by (cases "constraint_column_keys fk") auto
  let ?G1 = "add_edge tn (fk_column_table fk) ((tn, c), (fk_column_table fk, fk_column_name fk)) G"
  from Cons.prems(1) c have 1: "fk_loop tn fks ?G1 = Inr G'" by (simp add: Let_def)
  have 2: "graph_inv ?G1" using Cons.prems(2) by (rule graph_inv_add_edge)
  have k: "dict_keys (adj G) = node G" using Cons.prems(2) by (simp add: graph_inv_def)
  from Cons.IH [OF 1 2 Cons.prems(3)] show ?case
  proof
    assume "edge_join_on ?G1 u v = Some jo"
    then show ?thesis using c
      by (auto simp: edge_join_on_add_edge [OF k] join_on_of_def split: if_splits)
  next
    assume "\<exists>fk\<in>set fks. constraint_column_keys fk \<noteq> [] \<and> jo = join_on_of tn fk
             \<and> ((u = tn \<and> v = fk_column_table fk) \<or> (u = fk_column_table fk \<and> v = tn))"
    then show ?thesis by auto
  qed
qed

lemma table_loop_origin:
  assumes "table_loop (Some t) ts G = Inr G'" and "graph_inv G" and "edge_join_on G' u v = Some jo"
  shows "edge_join_on G u v = Some jo
       \<or> (\<exists>x\<in>set ts. \<exists>fk\<in>set (foreign_keys x).
             constraint_column_keys fk \<noteq> [] \<and> jo = join_on_of (name t) fk
             \<and> ((u = name t \<and> v = fk_column_table fk) \<or> (u = fk_column_table fk \<and> v = name t)))"
  using assms
proof (induction ts arbitrary: G)
  case Nil
  then show ?case by simp
next
  case (Cons x ts)
  from Cons.prems(1) obtain G1 where
    1: "fk_loop (name t) (foreign_keys x) G = Inr G1" and 2: "table_loop (Some t) ts G1 = Inr G'"
    by (auto split: sum.splits)
  have 3: "graph_inv G1" using Cons.prems(2) 1 by (rule graph_inv_fk_loop)
  from Cons.IH [OF 2 3 Cons.prems(3)] show ?case
  proof
    assume "edge_join_on G1 u v = Some jo"
    from fk_loop_origin [OF 1 Cons.prems(2) this] show ?thesis by auto
  next
    assume "\<exists>x\<in>set ts. \<exists>fk\<in>set (foreign_keys x).
             constraint_column_keys fk \<noteq> [] \<and> jo = join_on_of (name t) fk
             \<and> ((u = name t \<and> v = fk_column_table fk) \<or> (u = fk_column_table fk \<and> v = name t))"
    then show ?thesis by auto
  qed
qed

lemma create_graph_origin:
  assumes "create_graph s plot = Inr (g, io)" and "edge_join_on g u v = Some jo"
  shows "\<exists>x\<in>set s. \<exists>fk\<in>set (foreign_keys x).
           constraint_column_keys fk \<noteq> [] \<and> jo = join_on_of (name (last s)) fk
           \<and> ((u = name (last s) \<and> v = fk_column_table fk)
              \<or> (u = fk_column_table fk \<and> v = name (last s)))"
proof (cases "s = []")
  case True
  with assms show ?thesis by (auto simp: create_graph_def Graph_def edge_join_on_def)
next
  case False
  let ?G = "snd (node_loop s None Graph)"
  from assms(1) False have t: "table_loop (Some (last s)) s ?G = Inr g"
    by (simp add: create_graph_Inr)
  have i: "graph_inv ?G" by (rule graph_inv_node_loop [OF graph_inv_Graph])
  have e: "edge_join_on ?G u v = None"
    by (simp add: edge_join_on_node_loop [OF graph_inv_Graph]) (simp add: edge_join_on_def Graph_def)
  from table_loop_origin [OF t i assms(2)] e show ?thesis by simp
qed

subsection \<open>The last foreign key of an edge\<close>

lemma table_loop_split:
  "table_loop (Some L) (before @ t # after) G0 = Inr g \<Longrightarrow>
     \<exists>G1 G2. table_loop (Some L) before G0 = Inr G1
       \<and> fk_loop (name L) (foreign_keys t) G1 = Inr G2
       \<and> table_loop (Some L) after G2 = Inr g"
  by (auto simp: table_loop_append split: sum.splits)

lemma fk_loop_split:
  "fk_loop tn (fks1 @ fk # fks2) G = Inr G' \<Longrightarrow>
     \<exists>c cs G1. constraint_column_keys fk = c # cs
       \<and> fk_loop tn fks1 G = Inr G1
       \<and> fk_loop tn fks2
            (add_edge tn (fk_column_table fk) ((tn, c), (fk_column_table fk, fk_column_name fk)) G1)
           = Inr G'"
  by (auto simp: fk_loop_append Let_def split: sum.splits list.splits)

lemma table_loop_last_wins:
  assumes run: "table_loop (Some L) (before @ t # after) G0 = Inr g"
    and inv: "graph_inv G0"
    and f: "foreign_keys t = fks1 @ fk # fks2"
    and o: "\<forall>fk'\<in>set fks2 \<union> (\<Union>x\<in>set after. set (foreign_keys x)).
              fk_column_table fk' \<noteq> fk_column_table fk"
  shows "edge_join_on g (name L) (fk_column_table fk)
       = Some ((name L, hd (constraint_column_keys fk)), (fk_column_table fk, fk_column_name fk))"
proof -
  from table_loop_split [OF run] obtain G1 G2 where
    1: "table_loop (Some L) before G0 = Inr G1"
    and 2: "fk_loop (name L) (foreign_keys t) G1 = Inr G2"
    and 3: "table_loop (Some L) after G2 = Inr g"
    by blast
  have i1: "graph_inv G1" using inv 1 by (rule graph_inv_table_loop)
  have i2: "graph_inv G2" using i1 2 by (rule graph_inv_fk_loop)
  from 2 have "fk_loop (name L) (fks1 @ fk # fks2) G1 = Inr G2" by (simp only: f)
  from fk_loop_split [OF this] obtain c cs G1a where
    c: "constraint_column_keys fk = c # cs"
    and 4: "fk_loop (name L) fks1 G1 = Inr G1a"
    and 5: "fk_loop (name L) fks2
              (add_edge (name L) (fk_column_table fk)
                 ((name L, c), (fk_column_table fk, fk_column_name fk)) G1a) = Inr G2"
    by blast
  let ?jo = "((name L, c), (fk_column_table fk, fk_column_name fk))"
  let ?G1b = "add_edge (name L) (fk_column_table fk) ?jo G1a"
  have i1a: "graph_inv G1a" using i1 4 by (rule graph_inv_fk_loop)
  have i1b: "graph_inv ?G1b" using i1a by (rule graph_inv_add_edge)
  have k: "dict_keys (adj G1a) = node G1a" using i1a by (simp add: graph_inv_def)
  have a: "edge_join_on ?G1b (name L) (fk_column_table fk) = Some ?jo"
    by (simp add: edge_join_on_add_edge [OF k])
  have o2: "\<forall>fk'\<in>set fks2. \<not> ((name L = name L \<and> fk_column_table fk = fk_column_table fk')
        \<or> (name L = fk_column_table fk' \<and> fk_column_table fk = name L))"
    using o by auto
  have o3: "\<forall>x\<in>set after. \<forall>fk'\<in>set (foreign_keys x).
        \<not> ((name L = name L \<and> fk_column_table fk = fk_column_table fk')
        \<or> (name L = fk_column_table fk' \<and> fk_column_table fk = name L))"
    using o by auto
  have b: "edge_join_on G2 (name L) (fk_column_table fk)
         = edge_join_on ?G1b (name L) (fk_column_table fk)"
    using 5 i1b o2 by (rule fk_loop_untouched)
  have d: "edge_join_on g (name L) (fk_column_table fk)
         = edge_join_on G2 (name L) (fk_column_table fk)"
    using 3 i2 o3 by (rule table_loop_untouched)
  from a b d c show ?thesis by simp
qed

section \<open>The search finds a path between connected tables\<close>

text \<open>
  The chain of links from \<open>x\<close> in a dictionary: \<open>x\<close>, \<open>d[x]\<close>, \<open>d[d[x]]\<close>, and so on
  up to the key whose link is \<open>None\<close>.
\<close>

inductive chain :: "links \<Rightarrow> string \<Rightarrow> string list \<Rightarrow> bool" for d where
  last: "map_of d x = Some None \<Longrightarrow> chain d x [x]"
| link: "map_of d x = Some (Some y) \<Longrightarrow> chain d y p \<Longrightarrow> chain d x (x # p)"

lemma chain_follow:
  "chain d x p \<Longrightarrow> length p \<le> fuel \<Longrightarrow> follow fuel d (Some x) = Some (Inr p)"
proof (induction arbitrary: fuel rule: chain.induct)
  case (last x)
  then show ?case by (cases fuel) auto
next
  case (link x y p)
  then show ?case by (cases fuel) auto
qed

lemma chain_hd: "chain d x p \<Longrightarrow> p \<noteq> [] \<and> hd p = x"
  by (induction rule: chain.induct) auto

lemma chain_append: "chain d x p \<Longrightarrow> chain (d @ e) x p"
proof (induction rule: chain.induct)
  case (last x)
  then show ?case by (auto intro!: chain.last simp: map_add_def)
next
  case (link x y p)
  then show ?case by (auto intro: chain.link simp: map_add_def)
qed

text \<open>
  A dictionary of links built by the search from \<open>root\<close>: the root first, then nodes not
  yet present, each linked to a node already present of which it is a neighbour.
\<close>

inductive links_ok :: "graph \<Rightarrow> string \<Rightarrow> links \<Rightarrow> bool" for G root where
  root: "links_ok G root [(root, None)]"
| step: "links_ok G root d \<Longrightarrow> w \<notin> set (dict_keys d) \<Longrightarrow> v \<in> set (dict_keys d) \<Longrightarrow>
         has_edge G v w \<Longrightarrow> links_ok G root (d @ [(w, Some v)])"

lemma links_ok_root: "links_ok G r d \<Longrightarrow> r \<in> set (dict_keys d)"
  by (induction rule: links_ok.induct) (auto simp: dict_keys_def)

lemma links_ok_chain:
  "links_ok G r d \<Longrightarrow> x \<in> set (dict_keys d) \<Longrightarrow>
     \<exists>p. chain d x p \<and> last p = r \<and> distinct p \<and> set p \<subseteq> set (dict_keys d)
       \<and> successively (\<lambda>a b. has_edge G b a) p"
proof (induction arbitrary: x rule: links_ok.induct)
  case root
  then have "x = r" by (simp add: dict_keys_def)
  then have "chain [(r, None)] x [r]" by (auto intro: chain.last)
  then show ?case by (intro exI [of _ "[r]"]) (simp add: dict_keys_def \<open>x = r\<close>)
next
  case (step d w v)
  show ?case
  proof (cases "x = w")
    case True
    from step.IH [OF step.hyps(3)] obtain p where
      p: "chain d v p" "last p = r" "distinct p" "set p \<subseteq> set (dict_keys d)"
         "successively (\<lambda>a b. has_edge G b a) p"
      by blast
    have m: "map_of (d @ [(w, Some v)]) w = Some (Some v)"
      using step.hyps(2) by (simp add: map_add_def map_of_None_keys split: option.splits)
        (metis map_of_None_keys option.distinct(1))
    have c: "chain (d @ [(w, Some v)]) w (w # p)"
      using m chain_append [OF p(1)] by (rule chain.link)
    have h: "p \<noteq> []" "hd p = v" using chain_hd [OF p(1)] by auto
    have "last (w # p) = r" using p(2) h by simp
    moreover have "distinct (w # p)" using p(3,4) step.hyps(2) by auto
    moreover have "set (w # p) \<subseteq> set (dict_keys (d @ [(w, Some v)]))"
      using p(4) by (auto simp: dict_keys_def)
    moreover have "successively (\<lambda>a b. has_edge G b a) (w # p)"
      using p(5) h step.hyps(4) by (simp add: successively_Cons)
    ultimately show ?thesis using c True by blast
  next
    case False
    with step.prems have "x \<in> set (dict_keys d)" by (simp add: dict_keys_def)
    from step.IH [OF this] obtain p where
      p: "chain d x p" "last p = r" "distinct p" "set p \<subseteq> set (dict_keys d)"
         "successively (\<lambda>a b. has_edge G b a) p"
      by blast
    have "set p \<subseteq> set (dict_keys (d @ [(w, Some v)]))" using p(4) by (auto simp: dict_keys_def)
    with chain_append [OF p(1)] p(2,3,5) show ?thesis by blast
  qed
qed

lemma chain_length:
  assumes "distinct p" and "set p \<subseteq> set (dict_keys d)"
  shows "length p \<le> length d"
proof -
  have "length p = card (set p)" using assms(1) by (simp add: distinct_card)
  also have "\<dots> \<le> card (set (dict_keys d))" using assms(2) by (simp add: card_mono)
  also have "\<dots> \<le> length d" using card_length [of "dict_keys d"] by (simp add: dict_keys_def)
  finally show ?thesis .
qed


lemma has_edge_adj:
  "map_of (adj G) v = Some d \<Longrightarrow> has_edge G v w \<longleftrightarrow> w \<in> set (dict_keys d)"
  by (simp add: has_edge_def edge_join_on_def map_of_None_keys)

lemma has_edge_node: "has_edge G v w \<Longrightarrow> map_of (adj G) v \<noteq> None"
  by (auto simp: has_edge_def edge_join_on_def split: option.splits)

lemma node_adj: "graph_inv G \<Longrightarrow> v \<in> set (node G) \<Longrightarrow> \<exists>d. map_of (adj G) v = Some d"
proof -
  assume "graph_inv G" and "v \<in> set (node G)"
  then have "v \<in> set (dict_keys (adj G))" by (simp add: graph_inv_def)
  then have "map_of (adj G) v \<noteq> None" by (simp add: map_of_None_keys)
  then show ?thesis by auto
qed

lemma has_edge_sym: "graph_inv G \<Longrightarrow> has_edge G v w \<longleftrightarrow> has_edge G w v"
  by (simp add: has_edge_def graph_inv_def)

text \<open>What a scan of the neighbours of \<open>v\<close> keeps true, and what it returns.\<close>

definition scan_post :: "graph \<Rightarrow> string \<Rightarrow> links \<Rightarrow> links \<Rightarrow> string list \<Rightarrow> string set \<Rightarrow> level_result \<Rightarrow> bool" where
  "scan_post G r mine other fringe done res =
     (case res of
        Raised e \<Rightarrow> False
      | Met mine' w \<Rightarrow>
          links_ok G r mine' \<and> set (dict_keys mine') \<inter> set (dict_keys other) = {w}
      | Expanded mine' fringe' \<Rightarrow>
          links_ok G r mine' \<and> set (dict_keys mine') \<inter> set (dict_keys other) = {}
          \<and> done \<subseteq> set (dict_keys mine')
          \<and> (\<exists>new. fringe' = fringe @ new
                \<and> set (dict_keys mine') = set (dict_keys mine) \<union> set new))"

lemma scan_nbrs_post:
  assumes "links_ok G r mine" and "v \<in> set (dict_keys mine)"
    and "set (dict_keys mine) \<inter> set (dict_keys other) = {}"
    and "\<forall>w\<in>set ws. has_edge G v w"
  shows "scan_post G r mine other fringe (set ws) (scan_nbrs v ws mine other fringe)"
  using assms
proof (induction ws arbitrary: mine fringe)
  case Nil
  then show ?case by (simp add: scan_post_def)
next
  case (Cons w ws)
  let ?mine1 = "if dict_has w mine then mine else dict_set w (Some v) mine"
  let ?fringe1 = "if dict_has w mine then fringe else fringe @ [w]"
  have k1: "set (dict_keys ?mine1) = insert w (set (dict_keys mine))"
    by (auto simp: dict_has_def set_dict_keys_dict_set)
  have l1: "links_ok G r ?mine1"
  proof (cases "dict_has w mine")
    case True
    then show ?thesis using Cons.prems(1) by simp
  next
    case False
    then have n: "w \<notin> set (dict_keys mine)" by (simp add: dict_has_def)
    have "links_ok G r (mine @ [(w, Some v)])"
      using Cons.prems(1) n Cons.prems(2) by (rule links_ok.step) (use Cons.prems(4) in simp)
    with False n show ?thesis by (simp add: dict_set_absent)
  qed
  show ?case
  proof (cases "dict_has w other")
    case True
    then have "w \<in> set (dict_keys other)" by (simp add: dict_has_def)
    with Cons.prems(3) k1 have "set (dict_keys ?mine1) \<inter> set (dict_keys other) = {w}"
      by auto
    with l1 True show ?thesis by (simp add: scan_post_def Let_def)
  next
    case False
    then have o: "w \<notin> set (dict_keys other)" by (simp add: dict_has_def)
    have d1: "set (dict_keys ?mine1) \<inter> set (dict_keys other) = {}"
      using Cons.prems(3) k1 o by auto
    have v1: "v \<in> set (dict_keys ?mine1)" using k1 Cons.prems(2) by auto
    have e1: "\<forall>w\<in>set ws. has_edge G v w" using Cons.prems(4) by simp
    note IH = Cons.IH [OF l1 v1 d1 e1, of ?fringe1]
    have run: "scan_nbrs v (w # ws) mine other fringe = scan_nbrs v ws ?mine1 other ?fringe1"
      using False by (simp add: Let_def)
    show ?thesis
    proof (cases "scan_nbrs v ws ?mine1 other ?fringe1")
      case (Raised e)
      with IH show ?thesis by (simp add: scan_post_def)
    next
      case (Met m x)
      with IH run show ?thesis by (simp add: scan_post_def)
    next
      case (Expanded m f)
      with IH obtain new where
        a: "links_ok G r m" "set (dict_keys m) \<inter> set (dict_keys other) = {}"
           "set ws \<subseteq> set (dict_keys m)"
           "f = ?fringe1 @ new" "set (dict_keys m) = set (dict_keys ?mine1) \<union> set new"
        by (auto simp: scan_post_def)
      have "set (w # ws) \<subseteq> set (dict_keys m)" using a(3,5) k1 by auto
      moreover have "\<exists>new'. f = fringe @ new' \<and> set (dict_keys m) = set (dict_keys mine) \<union> set new'"
      proof (cases "dict_has w mine")
        case True
        with a(4,5) show ?thesis by auto
      next
        case False
        with a(4,5) k1 have "f = fringe @ (w # new)"
          "set (dict_keys m) = set (dict_keys mine) \<union> set (w # new)"
          by auto
        then show ?thesis by blast
      qed
      ultimately show ?thesis using a(1,2) Expanded run
        by (simp add: scan_post_def)
    qed
  qed
qed

lemma links_ok_nodes:
  assumes "graph_inv G" and "r \<in> set (node G)"
  shows "links_ok G r d \<Longrightarrow> set (dict_keys d) \<subseteq> set (node G)"
proof (induction rule: links_ok.induct)
  case root
  then show ?case using assms(2) by (simp add: dict_keys_def)
next
  case (step d w v)
  from step.hyps(4) have "has_edge G w v" using has_edge_sym [OF assms(1)] by simp
  then have "map_of (adj G) w \<noteq> None" by (rule has_edge_node)
  then have "w \<in> set (node G)" using assms(1) by (simp add: map_of_None_keys graph_inv_def)
  with step.IH show ?case by (simp add: dict_keys_def)
qed

lemma scan_level_post:
  assumes "graph_inv G" and "r \<in> set (node G)"
    and "links_ok G r mine" and "set vs \<subseteq> set (dict_keys mine)"
    and "set (dict_keys mine) \<inter> set (dict_keys other) = {}"
  shows "scan_post G r mine other fringe {w. \<exists>v\<in>set vs. has_edge G v w}
           (scan_level G vs mine other fringe)"
  using assms(3-5)
proof (induction vs arbitrary: mine fringe)
  case Nil
  then show ?case by (simp add: scan_post_def)
next
  case (Cons v vs)
  have "v \<in> set (node G)" using links_ok_nodes [OF assms(1,2) Cons.prems(1)] Cons.prems(2) by auto
  then obtain d where d: "map_of (adj G) v = Some d"
    using node_adj [OF assms(1)] by blast
  have e: "\<forall>w\<in>set (dict_keys d). has_edge G v w" using has_edge_adj [OF d] by simp
  have v: "v \<in> set (dict_keys mine)" using Cons.prems(2) by simp
  note N = scan_nbrs_post [OF Cons.prems(1) v Cons.prems(3) e, of fringe]
  show ?case
  proof (cases "scan_nbrs v (dict_keys d) mine other fringe")
    case (Raised e)
    with N show ?thesis by (simp add: scan_post_def)
  next
    case (Met m x)
    with N d show ?thesis by (simp add: scan_post_def)
  next
    case (Expanded m1 f1)
    with N obtain n1 where
      a: "links_ok G r m1" "set (dict_keys m1) \<inter> set (dict_keys other) = {}"
         "set (dict_keys d) \<subseteq> set (dict_keys m1)"
         "f1 = fringe @ n1" "set (dict_keys m1) = set (dict_keys mine) \<union> set n1"
      by (auto simp: scan_post_def)
    have vs1: "set vs \<subseteq> set (dict_keys m1)" using Cons.prems(2) a(5) by auto
    note IH = Cons.IH [OF a(1) vs1 a(2), of f1]
    have run: "scan_level G (v # vs) mine other fringe = scan_level G vs m1 other f1"
      using d Expanded by simp
    show ?thesis
    proof (cases "scan_level G vs m1 other f1")
      case (Raised e)
      with IH show ?thesis by (simp add: scan_post_def)
    next
      case (Met m x)
      with IH run show ?thesis by (simp add: scan_post_def)
    next
      case (Expanded m2 f2)
      with IH obtain n2 where
        b: "links_ok G r m2" "set (dict_keys m2) \<inter> set (dict_keys other) = {}"
           "{w. \<exists>v\<in>set vs. has_edge G v w} \<subseteq> set (dict_keys m2)"
           "f2 = f1 @ n2" "set (dict_keys m2) = set (dict_keys m1) \<union> set n2"
        by (auto simp: scan_post_def)
      have "{w. \<exists>u\<in>set (v # vs). has_edge G u w} \<subseteq> set (dict_keys m2)"
        using b(3,5) a(3) has_edge_adj [OF d] by auto
      moreover have "f2 = fringe @ (n1 @ n2)" using a(4) b(4) by simp
      moreover have "set (dict_keys m2) = set (dict_keys mine) \<union> set (n1 @ n2)"
        using a(5) b(5) by auto
      ultimately show ?thesis using b(1,2) Expanded run
        by (simp add: scan_post_def)
    qed
  qed
qed


text \<open>Two tables are connected when a sequence of edges leads from one to the other.\<close>

definition connected :: "graph \<Rightarrow> string \<Rightarrow> string \<Rightarrow> bool" where
  "connected G a b \<longleftrightarrow> (a, b) \<in> {(u, v). has_edge G u v}\<^sup>*"

lemma connected_sym: "graph_inv G \<Longrightarrow> connected G a b \<Longrightarrow> connected G b a"
proof -
  assume g: "graph_inv G" and "connected G a b"
  then have "(a, b) \<in> {(u, v). has_edge G u v}\<^sup>*" by (simp add: connected_def)
  then have "(b, a) \<in> {(u, v). has_edge G u v}\<^sup>*"
  proof (induction rule: rtrancl_induct)
    case base
    then show ?case by simp
  next
    case (step y z)
    then have "(z, y) \<in> {(u, v). has_edge G u v}" using has_edge_sym [OF g] by simp
    from this step.IH show ?case by (rule converse_rtrancl_into_rtrancl)
  qed
  then show ?thesis by (simp add: connected_def)
qed

text \<open>The nodes of \<open>K\<close> outside the fringe \<open>F\<close> have all their neighbours in \<open>K\<close>.\<close>

definition closed_but :: "graph \<Rightarrow> string set \<Rightarrow> string set \<Rightarrow> bool" where
  "closed_but G K F \<longleftrightarrow> (\<forall>x\<in>K - F. \<forall>y. has_edge G x y \<longrightarrow> y \<in> K)"

lemma closed_connected:
  assumes "closed_but G K {}" and "a \<in> K" and "connected G a b"
  shows "b \<in> K"
proof -
  from assms(3) have "(a, b) \<in> {(u, v). has_edge G u v}\<^sup>*" by (simp add: connected_def)
  then show ?thesis
  proof (induction rule: rtrancl_induct)
    case base
    then show ?case by (rule assms(2))
  next
    case (step y z)
    with assms(1) show ?case by (auto simp: closed_but_def)
  qed
qed

lemma level_step:
  assumes "graph_inv G" and "r \<in> set (node G)"
    and "links_ok G r mine" and "set fr \<subseteq> set (dict_keys mine)"
    and "set (dict_keys mine) \<inter> set (dict_keys other) = {}"
    and "closed_but G (set (dict_keys mine)) (set fr)"
    and "scan_level G fr mine other [] = Expanded m f"
  shows "links_ok G r m \<and> set (dict_keys m) \<inter> set (dict_keys other) = {}
       \<and> set f \<subseteq> set (dict_keys m) \<and> closed_but G (set (dict_keys m)) (set f)"
proof -
  from scan_level_post [OF assms(1-5), of "[]"] assms(7)
  have a: "links_ok G r m" "set (dict_keys m) \<inter> set (dict_keys other) = {}"
    "{w. \<exists>v\<in>set fr. has_edge G v w} \<subseteq> set (dict_keys m)"
    "set (dict_keys m) = set (dict_keys mine) \<union> set f"
    by (auto simp: scan_post_def)
  have "closed_but G (set (dict_keys m)) (set f)"
    unfolding closed_but_def
  proof (intro ballI allI impI)
    fix x y
    assume x: "x \<in> set (dict_keys m) - set f" and e: "has_edge G x y"
    from x a(4) have xm: "x \<in> set (dict_keys mine)" by auto
    show "y \<in> set (dict_keys m)"
    proof (cases "x \<in> set fr")
      case True
      with e a(3) show ?thesis by auto
    next
      case False
      with xm e assms(6) have "y \<in> set (dict_keys mine)" by (auto simp: closed_but_def)
      with a(4) show ?thesis by auto
    qed
  qed
  with a show ?thesis by auto
qed

lemma level_met:
  assumes "graph_inv G" and "r \<in> set (node G)"
    and "links_ok G r mine" and "set fr \<subseteq> set (dict_keys mine)"
    and "set (dict_keys mine) \<inter> set (dict_keys other) = {}"
    and "scan_level G fr mine other [] = Met m w"
  shows "links_ok G r m \<and> set (dict_keys m) \<inter> set (dict_keys other) = {w}"
  using scan_level_post [OF assms(1-5), of "[]"] assms(6) by (simp add: scan_post_def)

lemma level_not_raised:
  assumes "graph_inv G" and "r \<in> set (node G)"
    and "links_ok G r mine" and "set fr \<subseteq> set (dict_keys mine)"
    and "set (dict_keys mine) \<inter> set (dict_keys other) = {}"
  shows "scan_level G fr mine other [] \<noteq> Raised e"
  using scan_level_post [OF assms(1-5), of "[]"] by (auto simp: scan_post_def)

definition bfs_inv :: "graph \<Rightarrow> string \<Rightarrow> string \<Rightarrow> links \<Rightarrow> links \<Rightarrow> string list \<Rightarrow> string list \<Rightarrow> bool" where
  "bfs_inv G s t pred succ ff rf \<longleftrightarrow>
     links_ok G s pred \<and> links_ok G t succ
     \<and> set (dict_keys pred) \<inter> set (dict_keys succ) = {}
     \<and> set ff \<subseteq> set (dict_keys pred) \<and> set rf \<subseteq> set (dict_keys succ)
     \<and> closed_but G (set (dict_keys pred)) (set ff)
     \<and> closed_but G (set (dict_keys succ)) (set rf)"

definition bfs_post :: "graph \<Rightarrow> string \<Rightarrow> string \<Rightarrow> error + (links \<times> links \<times> string) \<Rightarrow> bool" where
  "bfs_post G s t res =
     (case res of
        Inl e \<Rightarrow> e = NetworkXNoPath \<and> \<not> connected G s t
      | Inr (pred, succ, w) \<Rightarrow>
          links_ok G s pred \<and> links_ok G t succ
          \<and> set (dict_keys pred) \<inter> set (dict_keys succ) = {w})"

lemma bfs_exit:
  assumes g: "graph_inv G" and inv: "bfs_inv G s t pred succ ff rf"
    and e: "\<not> (ff \<noteq> [] \<and> rf \<noteq> [])"
  shows "\<not> connected G s t"
proof
  assume c: "connected G s t"
  from inv have sp: "s \<in> set (dict_keys pred)" and ts: "t \<in> set (dict_keys succ)"
    by (auto simp: bfs_inv_def dest: links_ok_root)
  from inv have dj: "set (dict_keys pred) \<inter> set (dict_keys succ) = {}" by (simp add: bfs_inv_def)
  show False
  proof (cases "ff = []")
    case True
    with inv have "closed_but G (set (dict_keys pred)) {}" by (simp add: bfs_inv_def)
    from closed_connected [OF this sp c] ts dj show False by auto
  next
    case False
    with e have "rf = []" by simp
    with inv have "closed_but G (set (dict_keys succ)) {}" by (simp add: bfs_inv_def)
    from closed_connected [OF this ts connected_sym [OF g c]] sp dj show False by auto
  qed
qed

lemma bfs_loop_post:
  assumes g: "graph_inv G" and s: "s \<in> set (node G)" and t: "t \<in> set (node G)"
  shows "bfs_inv G s t pred succ ff rf \<Longrightarrow> bfs_post G s t (bfs_loop G pred succ ff rf)"
  using g s t
proof (induction G pred succ ff rf rule: bfs_loop.induct)
  case (1 G pred succ ff rf)
  note inv = "1.prems"(1) and g = "1.prems"(2) and s = "1.prems"(3) and t = "1.prems"(4)
  from inv have lp: "links_ok G s pred" and ls: "links_ok G t succ"
    and dj: "set (dict_keys pred) \<inter> set (dict_keys succ) = {}"
    and fp: "set ff \<subseteq> set (dict_keys pred)" and rs: "set rf \<subseteq> set (dict_keys succ)"
    and cp: "closed_but G (set (dict_keys pred)) (set ff)"
    and cs: "closed_but G (set (dict_keys succ)) (set rf)"
    by (simp_all add: bfs_inv_def)
  from dj have dj': "set (dict_keys succ) \<inter> set (dict_keys pred) = {}" by auto
  show ?case
  proof (cases "ff \<noteq> [] \<and> rf \<noteq> []")
    case False
    then have "bfs_loop G pred succ ff rf = Inl NetworkXNoPath"
      by (subst bfs_loop.simps) auto
    with bfs_exit [OF g inv False] show ?thesis by (simp add: bfs_post_def)
  next
    case ne: True
    show ?thesis
    proof (cases "length ff \<le> length rf")
      case le: True
      show ?thesis
      proof (cases "scan_level G ff pred succ []")
        case (Raised e)
        with level_not_raised [OF g s lp fp dj, of e] show ?thesis by simp
      next
        case (Met m w)
        then have "bfs_loop G pred succ ff rf = Inr (m, succ, w)"
          using ne le by (subst bfs_loop.simps) simp
        with level_met [OF g s lp fp dj Met] ls show ?thesis by (simp add: bfs_post_def)
      next
        case (Expanded m f)
        then have run: "bfs_loop G pred succ ff rf = bfs_loop G m succ f rf"
          using ne le by (subst bfs_loop.simps) simp
        from level_step [OF g s lp fp dj cp Expanded] ls rs cs
        have "bfs_inv G s t m succ f rf" by (simp add: bfs_inv_def)
        from "1.IH"(1) [OF ne le Expanded this g s t] run show ?thesis by simp
      qed
    next
      case gt: False
      show ?thesis
      proof (cases "scan_level G rf succ pred []")
        case (Raised e)
        with level_not_raised [OF g t ls rs dj', of e] show ?thesis by simp
      next
        case (Met m w)
        then have "bfs_loop G pred succ ff rf = Inr (pred, m, w)"
          using ne gt by (subst bfs_loop.simps) simp
        moreover from level_met [OF g t ls rs dj' Met]
        have "links_ok G t m" "set (dict_keys pred) \<inter> set (dict_keys m) = {w}" by auto
        ultimately show ?thesis using lp by (simp add: bfs_post_def)
      next
        case (Expanded m f)
        then have run: "bfs_loop G pred succ ff rf = bfs_loop G pred m ff f"
          using ne gt by (subst bfs_loop.simps) simp
        from level_step [OF g t ls rs dj' cs Expanded]
        have "links_ok G t m" "set (dict_keys pred) \<inter> set (dict_keys m) = {}"
          "set f \<subseteq> set (dict_keys m)" "closed_but G (set (dict_keys m)) (set f)"
          by auto
        with lp fp cp have "bfs_inv G s t pred m ff f" by (simp add: bfs_inv_def)
        from "1.IH"(2) [OF ne gt Expanded this g s t] run show ?thesis by simp
      qed
    qed
  qed
qed


subsection \<open>The path built from the two dictionaries\<close>

lemma chain_tl:
  assumes "chain d x p" and "length p \<le> fuel"
  shows "\<exists>w'. map_of d x = Some w' \<and> follow fuel d w' = Some (Inr (tl p))"
  using assms(1)
proof (cases rule: chain.cases)
  case last
  then show ?thesis by simp
next
  case (link y p')
  with assms(2) have "length p' \<le> fuel" by simp
  from chain_follow [OF link(3) this] link show ?thesis by simp
qed

lemma walk_connected:
  "successively (has_edge G) p \<Longrightarrow> p \<noteq> [] \<Longrightarrow> connected G (hd p) (last p)"
proof (induction p)
  case Nil
  then show ?case by simp
next
  case (Cons x p)
  show ?case
  proof (cases "p = []")
    case True
    then show ?thesis by (simp add: connected_def)
  next
    case False
    with Cons have e: "has_edge G x (hd p)" and c: "connected G (hd p) (last p)"
      by (auto simp: successively_Cons)
    from e have "(x, hd p) \<in> {(u, v). has_edge G u v}" by simp
    from this c [unfolded connected_def] have "(x, last p) \<in> {(u, v). has_edge G u v}\<^sup>*"
      by (rule converse_rtrancl_into_rtrancl)
    with False show ?thesis by (simp add: connected_def)
  qed
qed

text \<open>What \<open>bidirectional_shortest_path\<close> makes of the dictionaries the search returns.\<close>

definition is_simple_path :: "graph \<Rightarrow> string \<Rightarrow> string \<Rightarrow> string list \<Rightarrow> bool" where
  "is_simple_path G a b p \<longleftrightarrow>
     p \<noteq> [] \<and> hd p = a \<and> last p = b \<and> distinct p \<and> successively (has_edge G) p"

lemma path_of_links:
  assumes g: "graph_inv G" and lp: "links_ok G s pred" and ls: "links_ok G t succ"
    and i: "set (dict_keys pred) \<inter> set (dict_keys succ) = {w}"
  shows "\<exists>back w' forth. follow (length pred) pred (Some w) = Some (Inr back)
           \<and> map_of succ (last (rev back)) = Some w'
           \<and> follow (length succ) succ w' = Some (Inr forth)
           \<and> is_simple_path G s t (rev back @ forth)"
proof -
  from i have wp: "w \<in> set (dict_keys pred)" and ws: "w \<in> set (dict_keys succ)" by auto
  from links_ok_chain [OF lp wp] obtain pb where
    pb: "chain pred w pb" "last pb = s" "distinct pb" "set pb \<subseteq> set (dict_keys pred)"
        "successively (\<lambda>a b. has_edge G b a) pb"
    by blast
  from links_ok_chain [OF ls ws] obtain ps where
    ps: "chain succ w ps" "last ps = t" "distinct ps" "set ps \<subseteq> set (dict_keys succ)"
        "successively (\<lambda>a b. has_edge G b a) ps"
    by blast
  from chain_hd [OF pb(1)] have hb: "pb \<noteq> []" "hd pb = w" by auto
  from chain_hd [OF ps(1)] have hs: "ps \<noteq> []" "hd ps = w" by auto
  from hs have ps_eq: "ps = w # tl ps" by (cases ps) auto
  have f1: "follow (length pred) pred (Some w) = Some (Inr pb)"
    using pb(1) chain_length [OF pb(3,4)] by (rule chain_follow)
  from chain_tl [OF ps(1) chain_length [OF ps(3,4)]] obtain w' where
    f2: "map_of succ w = Some w'" "follow (length succ) succ w' = Some (Inr (tl ps))"
    by blast
  have lw: "last (rev pb) = w" using hb by (simp add: last_rev)
  have fwd: "successively (has_edge G) ps"
    using ps(5) by (rule successively_mono) (simp add: has_edge_sym [OF g])
  have tl_ps: "set (tl ps) \<subseteq> set (dict_keys succ) - {w}"
    using ps(3,4) ps_eq by (metis Diff_empty distinct.simps(2) list.simps(15) subset_Diff_insert subset_insertI2 insert_subset)
  have "rev pb @ tl ps \<noteq> []" using hb by simp
  moreover have "hd (rev pb @ tl ps) = s" using hb pb(2) by (simp add: hd_rev)
  moreover have "last (rev pb @ tl ps) = t"
  proof (cases "tl ps = []")
    case True
    with ps_eq have "ps = [w]" by simp
    with ps(2) have "w = t" by simp
    with True lw show ?thesis by simp
  next
    case False
    then have "last (rev pb @ tl ps) = last (tl ps)" by simp
    also have "\<dots> = last ps" using False by (simp add: last_tl)
    finally show ?thesis using ps(2) by simp
  qed
  moreover have "distinct (rev pb @ tl ps)"
  proof -
    have "distinct (tl ps)" using ps(3) by (simp add: distinct_tl)
    moreover have "set pb \<inter> set (tl ps) = {}" using pb(4) tl_ps i by auto
    ultimately show ?thesis using pb(3) by simp
  qed
  moreover have "successively (has_edge G) (rev pb @ tl ps)"
  proof -
    have a: "successively (has_edge G) (rev pb)" using pb(5) by simp
    have b: "tl ps = [] \<or> has_edge G w (hd (tl ps)) \<and> successively (has_edge G) (tl ps)"
      using fwd ps_eq by (metis successively_Cons)
    then have c: "successively (has_edge G) (tl ps)" by auto
    from a b c lw show ?thesis by (auto simp: successively_append_iff)
  qed
  ultimately have "is_simple_path G s t (rev pb @ tl ps)" by (simp add: is_simple_path_def)
  with f1 f2 lw show ?thesis by auto
qed

lemma bidirectional_pred_succ_post:
  assumes "graph_inv G" and "s \<in> set (node G)" and "t \<in> set (node G)"
  shows "bfs_post G s t (bidirectional_pred_succ G s t)"
proof (cases "t = s")
  case True
  have "links_ok G s [(s, None)]" by (rule links_ok.root)
  with True show ?thesis
    by (simp add: bidirectional_pred_succ_def bfs_post_def dict_keys_def)
next
  case False
  have "bfs_inv G s t [(s, None)] [(t, None)] [s] [t]"
    using False by (simp add: bfs_inv_def links_ok.root dict_keys_def closed_but_def)
  from bfs_loop_post [OF assms this] False show ?thesis
    by (simp add: bidirectional_pred_succ_def)
qed

lemma shortest_path_result:
  assumes g: "graph_inv G" and s: "s \<in> set (node G)" and t: "t \<in> set (node G)"
  shows "(connected G s t \<longrightarrow>
            (\<exists>path. shortest_path G s t = Some (Inr path) \<and> is_simple_path G s t path))
       \<and> (\<not> connected G s t \<longrightarrow> shortest_path G s t = Some (Inl NetworkXNoPath))"
proof (cases "bidirectional_pred_succ G s t")
  case (Inl e)
  with bidirectional_pred_succ_post [OF assms] have "e = NetworkXNoPath" "\<not> connected G s t"
    by (simp_all add: bfs_post_def)
  with Inl s t show ?thesis
    by (simp add: shortest_path_def bidirectional_shortest_path_def)
next
  case (Inr r)
  obtain pred succ w where r: "r = (pred, succ, w)" by (cases r)
  with Inr bidirectional_pred_succ_post [OF assms] have
    "links_ok G s pred" "links_ok G t succ" "set (dict_keys pred) \<inter> set (dict_keys succ) = {w}"
    by (simp_all add: bfs_post_def)
  from path_of_links [OF g this] obtain bk w' fo where
    p: "follow (length pred) pred (Some w) = Some (Inr bk)"
       "map_of succ (last (rev bk)) = Some w'"
       "follow (length succ) succ w' = Some (Inr fo)"
       "is_simple_path G s t (rev bk @ fo)"
    by blast
  have sp: "shortest_path G s t = Some (Inr (rev bk @ fo))"
    using Inr r s t p(1,2,3) by (simp add: shortest_path_def bidirectional_shortest_path_def)
  from p(4) have "connected G s t"
    using walk_connected [of G "rev bk @ fo"] by (auto simp: is_simple_path_def)
  with sp p(4) show ?thesis by simp
qed

section \<open>The joins of a simple path\<close>

lemma create_graph_endpoints:
  assumes "create_graph s plot = Inr (g, io)" and "edge_join_on g u v = Some (l, r)"
  shows "(fst l = u \<and> fst r = v) \<or> (fst l = v \<and> fst r = u)"
  using create_graph_origin [OF assms] by (auto simp: join_on_of_def)

lemma join_loop_distinct:
  assumes "successively (has_edge G) path" and "distinct (tl path)"
    and "set (tl path) \<inter> set (dict_keys joins) = {}"
  shows "join_loop G path joins
       = Inr (joins @ map (\<lambda>(u, v). (v, the (edge_join_on G u v))) (zip path (tl path)))"
  using assms
proof (induction G path joins rule: join_loop.induct)
  case (1 G joins)
  then show ?case by simp
next
  case (2 G table joins)
  then show ?case by simp
next
  case (3 G table nxt rest joins)
  from "3.prems"(1) obtain jo where jo: "edge_join_on G table nxt = Some jo"
    by (auto simp: has_edge_def)
  from "3.prems"(3) have n: "nxt \<notin> set (dict_keys joins)" by auto
  then have h: "\<not> dict_has nxt joins" by (simp add: dict_has_def)
  let ?joins1 = "if dict_has nxt joins then joins else dict_set nxt jo joins"
  have j1: "?joins1 = joins @ [(nxt, jo)]" using h n by (simp add: dict_set_absent)
  have a: "successively (has_edge G) (nxt # rest)" using "3.prems"(1) by simp
  have b: "distinct (tl (nxt # rest))" using "3.prems"(2) by simp
  have c: "set (tl (nxt # rest)) \<inter> set (dict_keys ?joins1) = {}"
    using "3.prems"(2,3) unfolding j1 by (auto simp: dict_keys_def)
  from "3.IH" [OF jo a b c] jo h n show ?case
    unfolding j1 by (simp add: dict_set_absent)
qed

lemma joins_of_path_simple:
  assumes "successively (has_edge G) path" and "distinct path"
  shows "\<exists>plan. joins_of_path G path = Inr plan \<and> length plan = length path - 1
     \<and> map fst plan = tl path
     \<and> (\<forall>i<length plan. \<exists>l r. plan ! i = (path ! Suc i, l, r)
           \<and> edge_join_on G (path ! i) (path ! Suc i) = Some (l, r))"
proof -
  let ?f = "\<lambda>(u, v). (v, the (edge_join_on G u v))"
  let ?g = "\<lambda>(table, join_on :: join_on). (table, fst join_on, snd join_on)"
  let ?plan = "map ?g (map ?f (zip path (tl path)))"
  have "join_loop G path [] = Inr ([] @ map ?f (zip path (tl path)))"
    using assms by (intro join_loop_distinct) (simp_all add: distinct_tl dict_keys_def)
  then have r: "joins_of_path G path = Inr ?plan" by (simp add: joins_of_path_def)
  have len: "length ?plan = length path - 1" by simp
  have "map fst ?plan = map snd (zip path (tl path))" by (simp add: case_prod_beta comp_def)
  also have "\<dots> = tl path" by (simp add: map_snd_zip_take)
  finally have tbl: "map fst ?plan = tl path" .
  have "\<exists>l r. ?plan ! i = (path ! Suc i, l, r)
           \<and> edge_join_on G (path ! i) (path ! Suc i) = Some (l, r)" if i: "i < length ?plan" for i
  proof -
    from i have i': "Suc i < length path" by simp
    with assms(1) have "has_edge G (path ! i) (path ! Suc i)"
      by (simp add: successively_conv_nth)
    then obtain l r where e: "edge_join_on G (path ! i) (path ! Suc i) = Some (l, r)"
      by (auto simp: has_edge_def)
    from i' have "?plan ! i = ?g (?f (path ! i, path ! Suc i))" by (simp add: nth_tl)
    with e show ?thesis by simp
  qed
  with r len tbl show ?thesis by blast
qed


text \<open>Every \<open>join_on\<close> of the graph names the two tables of its edge.\<close>

definition join_on_names_ends :: "graph \<Rightarrow> bool" where
  "join_on_names_ends G \<longleftrightarrow>
     (\<forall>u v l r. edge_join_on G u v = Some (l, r) \<longrightarrow>
        (fst l = u \<and> fst r = v) \<or> (fst l = v \<and> fst r = u))"

lemma create_graph_names_ends:
  "create_graph s plot = Inr (g, io) \<Longrightarrow> join_on_names_ends g"
  unfolding join_on_names_ends_def using create_graph_endpoints by blast

lemma resolve_join_Inr:
  assumes "resolve_join G A B = Some (Inr plan)"
  shows "A \<in> set (node G) \<and> B \<in> set (node G)
       \<and> (\<exists>path. shortest_path G A B = Some (Inr path) \<and> joins_of_path G path = Inr plan)"
  using assms
  by (auto simp: resolve_join_def shortest_path_def bidirectional_shortest_path_def
      split: option.splits sum.splits if_splits)

subsection \<open>The guard of the loop\<close>

text \<open>
  The loop records a join under a table only when the table is no key of \<open>joins\<close> yet.
  On a path that held a table twice it would keep the join of the first step that reaches
  the table and raise nothing; its only error is the \<open>KeyError\<close> of a missing edge.
\<close>

lemma joins_of_path_tables:
  "(successively (has_edge G) path \<longrightarrow>
      (\<exists>plan. joins_of_path G path = Inr plan \<and> map fst plan = rev (remdups (rev (tl path)))))
   \<and> (\<not> successively (has_edge G) path \<longrightarrow> joins_of_path G path = Inl KeyError)"
proof (cases "successively (has_edge G) path")
  case True
  with join_loop_result [of G path "[]"] obtain joins where j: "join_loop G path [] = Inr joins"
    by auto
  from join_loop_keys [OF j] have "dict_keys joins = rev (remdups (rev (tl path)))"
    by (simp add: dict_keys_def)
  with j True show ?thesis
    by (simp add: joins_of_path_def dict_keys_def comp_def case_prod_beta)
next
  case False
  with join_loop_result [of G path "[]"] show ?thesis
    by (simp add: joins_of_path_def)
qed

lemma join_loop_guard_keeps_first:
  "joins_of_path library_graph [''authors'', ''books'', ''catalogs'', ''books'']
     = Inr [(''books'', (''books'', ''author_id''), (''authors'', ''id'')),
            (''catalogs'', (''books'', ''catalog_id''), (''catalogs'', ''id''))]"
  by code_simp


subsection \<open>One edge for a pair of tables\<close>

text \<open>
  When every foreign key has a column, \<open>create_graph\<close> returns a graph. In it the edge
  between \<open>u\<close> and \<open>v\<close> is the edge between \<open>v\<close> and \<open>u\<close>, and every adjacency
  dictionary has each neighbour once. The edge that \<open>add_edge\<close> is called for, between
  the last table and the referenced table, carries the \<open>join_on\<close> of the last foreign key
  visited for it.
\<close>

lemma create_graph_edge_last_wins:
  assumes "\<forall>t\<in>set s. \<forall>fk\<in>set (foreign_keys t). constraint_column_keys fk \<noteq> []"
  shows "\<exists>g io. create_graph s plot = Inr (g, io)
      \<and> (\<forall>u v. edge_join_on g u v = edge_join_on g v u)
      \<and> (\<forall>u d. map_of (adj g) u = Some d \<longrightarrow> distinct (dict_keys d))
      \<and> (\<forall>before t after fks1 fk fks2.
            s = before @ t # after \<and> foreign_keys t = fks1 @ fk # fks2
            \<and> (\<forall>fk'\<in>set fks2 \<union> (\<Union>x\<in>set after. set (foreign_keys x)).
                  fk_column_table fk' \<noteq> fk_column_table fk)
          \<longrightarrow> edge_join_on g (name (last s)) (fk_column_table fk)
              = Some ((name (last s), hd (constraint_column_keys fk)),
                      (fk_column_table fk, fk_column_name fk)))"
proof -
  from create_graph_succeeds [OF assms, of plot] obtain g io where
    g: "create_graph s plot = Inr (g, io)" by blast
  have inv: "graph_inv g" using g by (rule graph_inv_create_graph)
  have i0: "graph_inv (snd (node_loop s None Graph))"
    by (rule graph_inv_node_loop [OF graph_inv_Graph])
  have last_wins: "edge_join_on g (name (last s)) (fk_column_table fk)
              = Some ((name (last s), hd (constraint_column_keys fk)),
                      (fk_column_table fk, fk_column_name fk))"
    if s: "s = before @ t # after" and f: "foreign_keys t = fks1 @ fk # fks2"
      and o: "\<forall>fk'\<in>set fks2 \<union> (\<Union>x\<in>set after. set (foreign_keys x)).
                  fk_column_table fk' \<noteq> fk_column_table fk"
    for before t after fks1 fk fks2
  proof -
    from s have ne: "s \<noteq> []" by simp
    from g ne have "table_loop (Some (last s)) s (snd (node_loop s None Graph)) = Inr g"
      by (simp add: create_graph_Inr)
    then have "table_loop (Some (last s)) (before @ t # after) (snd (node_loop s None Graph)) = Inr g"
      by (simp only: s [symmetric])
    from table_loop_last_wins [OF this i0 f o] show ?thesis .
  qed
  have sym: "\<forall>u v. edge_join_on g u v = edge_join_on g v u"
    and dis: "\<forall>u d. map_of (adj g) u = Some d \<longrightarrow> distinct (dict_keys d)"
    using inv by (simp_all add: graph_inv_def)
  show ?thesis
  proof (intro exI conjI allI impI)
    show "create_graph s plot = Inr (g, io)" by (rule g)
    show "edge_join_on g u v = edge_join_on g v u" for u v using sym by simp
    show "distinct (dict_keys d)" if "map_of (adj g) u = Some d" for u d using dis that by blast
    show "edge_join_on g (name (last s)) (fk_column_table fk)
              = Some ((name (last s), hd (constraint_column_keys fk)),
                      (fk_column_table fk, fk_column_name fk))"
      if h: "s = before @ t # after \<and> foreign_keys t = fks1 @ fk # fks2
            \<and> (\<forall>fk'\<in>set fks2 \<union> (\<Union>x\<in>set after. set (foreign_keys x)).
                  fk_column_table fk' \<noteq> fk_column_table fk)"
      for before t after fks1 fk fks2
    proof -
      from h have 1: "s = before @ t # after" by (rule conjunct1)
      from h have 2: "foreign_keys t = fks1 @ fk # fks2" by (rule conjunct2 [THEN conjunct1])
      from h have 3: "\<forall>fk'\<in>set fks2 \<union> (\<Union>x\<in>set after. set (foreign_keys x)).
                  fk_column_table fk' \<noteq> fk_column_table fk"
        by (rule conjunct2 [THEN conjunct2])
      from 1 2 3 show ?thesis by (rule last_wins)
    qed
  qed
qed

section \<open>Claims\<close>

text \<open>
  Three tables in the order of \<open>sorted_tables\<close>: \<open>books\<close> references \<open>authors\<close>, and
  \<open>reviews\<close>, the last table, references \<open>books\<close>.
\<close>

definition review_tables :: "table list" where
  "review_tables =
     [\<lparr>name = ''authors'', foreign_keys = []\<rparr>,
      \<lparr>name = ''books'', foreign_keys = [author_fk]\<rparr>,
      \<lparr>name = ''reviews'', foreign_keys =
         [\<lparr>constraint_column_keys = [''book_id''],
           fk_column_table = ''books'', fk_column_name = ''id''\<rparr>]\<rparr>]"

text \<open>
  C1. The claim: for every foreign key \<open>Ta.ca -> Tb.cb\<close> of the schema, the graph of
  \<open>create_graph\<close> has an edge between \<open>Ta\<close> and \<open>Tb\<close> whose \<open>join_on\<close> is
  \<open>((Ta, ca), (Tb, cb))\<close>. The code takes the owning table's name from the loop variable
  of its first loop, which is the last table: on \<open>review_tables\<close> the foreign key
  \<open>books.author_id -> authors.id\<close> yields no edge between \<open>books\<close> and \<open>authors\<close>, but
  an edge between \<open>reviews\<close> and \<open>authors\<close> whose owning side is
  \<open>(reviews, author_id)\<close>.
\<close>

theorem create_graph_review_tables:
  "(case create_graph review_tables True of
      Inl e \<Rightarrow> None
    | Inr (g, io) \<Rightarrow>
        Some (edge_join_on g ''books'' ''authors'',
              edge_join_on g ''reviews'' ''authors'',
              edge_join_on g ''reviews'' ''books''))
   = Some (None,
           Some ((''reviews'', ''author_id''), (''authors'', ''id'')),
           Some ((''reviews'', ''book_id''), (''books'', ''id'')))"
  by code_simp

text \<open>
  C2. On the tables \<open>authors\<close>, \<open>catalogs\<close> and \<open>books\<close> of the source,
  \<open>resolve_join g 'authors' 'catalogs'\<close> returns two joins: the first introduces
  \<open>books\<close> on \<open>books.author_id = authors.id\<close>, the second introduces \<open>catalogs\<close> on
  \<open>books.catalog_id = catalogs.id\<close>; in whichever order the loop visits the two foreign
  keys of \<open>books\<close>.
\<close>

theorem library_authors_to_catalogs:
  "(case create_graph (library_tables [author_fk, catalog_fk]) True of
      Inl e \<Rightarrow> None
    | Inr (g, io) \<Rightarrow> resolve_join g ''authors'' ''catalogs'')
   = Some (Inr [(''books'', (''books'', ''author_id''), (''authors'', ''id'')),
                (''catalogs'', (''books'', ''catalog_id''), (''catalogs'', ''id''))])
   \<and>
   (case create_graph (library_tables [catalog_fk, author_fk]) True of
      Inl e \<Rightarrow> None
    | Inr (g, io) \<Rightarrow> resolve_join g ''authors'' ''catalogs'')
   = Some (Inr [(''books'', (''books'', ''author_id''), (''authors'', ''id'')),
                (''catalogs'', (''books'', ''catalog_id''), (''catalogs'', ''id''))])"
  by code_simp

text \<open>
  C8. The claim: \<open>create_graph\<close> performs no I/O. Called as the source calls it, with
  \<open>plot=True\<close>, it opens a figure, draws the graph and shows it.
\<close>

theorem create_graph_plot_counterexample:
  "(case create_graph (library_tables [author_fk, catalog_fk]) True of
      Inl e \<Rightarrow> None
    | Inr (g, io) \<Rightarrow> Some (io = [PltFigure, NxDraw g, PltShow])) = Some True"
  by code_simp

text \<open>
  C8, amended. With \<open>plot=False\<close> \<open>create_graph\<close> performs no I/O; with \<open>plot=True\<close>
  it returns the same graph, or fails in the same way, and on success its only effects are
  the figure, the drawing of the returned graph and its display, in this order.
\<close>

theorem create_graph_io:
  "(\<forall>g io. create_graph sorted_tables False = Inr (g, io) \<longrightarrow> io = [])
   \<and> create_graph sorted_tables True =
       (case create_graph sorted_tables False of
          Inl e \<Rightarrow> Inl e
        | Inr (g, io) \<Rightarrow> Inr (g, [PltFigure, NxDraw g, PltShow]))"
  by (auto simp: create_graph_def split: prod.splits sum.splits)

theorem create_graph_io_witness:
  "create_graph (library_tables [author_fk, catalog_fk]) False =
      Inr (\<lparr>node = [''authors'', ''catalogs'', ''books''],
            adj = [(''authors'', [(''books'', (''books'', ''author_id''), ''authors'', ''id'')]),
                   (''catalogs'', [(''books'', (''books'', ''catalog_id''), ''catalogs'', ''id'')]),
                   (''books'', [(''authors'', (''books'', ''author_id''), ''authors'', ''id''),
                               (''catalogs'', (''books'', ''catalog_id''), ''catalogs'', ''id'')])]\<rparr>,
           [])
   \<and> (\<exists>g. create_graph (library_tables [author_fk, catalog_fk]) True = Inr (g, [PltFigure, NxDraw g, PltShow]))"
proof -
  have 1: "create_graph (library_tables [author_fk, catalog_fk]) False =
      Inr (\<lparr>node = [''authors'', ''catalogs'', ''books''],
            adj = [(''authors'', [(''books'', (''books'', ''author_id''), ''authors'', ''id'')]),
                   (''catalogs'', [(''books'', (''books'', ''catalog_id''), ''catalogs'', ''id'')]),
                   (''books'', [(''authors'', (''books'', ''author_id''), ''authors'', ''id''),
                               (''catalogs'', (''books'', ''catalog_id''), ''catalogs'', ''id'')])]\<rparr>,
           [])"
    by code_simp
  from create_graph_io [of "library_tables [author_fk, catalog_fk]"] 1
  show ?thesis by simp
qed

text \<open>
  C5. For every table \<open>X\<close> that is a node of the graph, \<open>resolve_join g X X\<close> returns
  the empty list of joins.
\<close>

theorem resolve_join_same_table:
  "X \<in> set (node g) \<Longrightarrow> resolve_join g X X = Some (Inr [])"
  by (simp add: resolve_join_def shortest_path_def bidirectional_shortest_path_def
      bidirectional_pred_succ_def joins_of_path_def)

theorem resolve_join_same_table_witness:
  "''books'' \<in> set (node library_graph)
   \<and> resolve_join library_graph ''books'' ''books'' = Some (Inr [])"
proof -
  have h: "''books'' \<in> set (node library_graph)" by (simp add: library_graph_def)
  from h resolve_join_same_table [OF h] show ?thesis by simp
qed



text \<open>
  The tables \<open>authors\<close>, \<open>books\<close> and \<open>reviews\<close> in the order of \<open>sorted_tables\<close>:
  \<open>books\<close> has two foreign keys to \<open>authors\<close>, and \<open>reviews\<close>, the last table,
  references \<open>books\<close>.
\<close>

definition editor_fk :: foreign_key where
  "editor_fk = \<lparr>constraint_column_keys = [''editor_id''],
     fk_column_table = ''authors'', fk_column_name = ''id''\<rparr>"

definition editor_review_tables :: "table list" where
  "editor_review_tables =
     [\<lparr>name = ''authors'', foreign_keys = []\<rparr>,
      \<lparr>name = ''books'', foreign_keys = [author_fk, editor_fk]\<rparr>,
      \<lparr>name = ''reviews'', foreign_keys =
         [\<lparr>constraint_column_keys = [''book_id''],
           fk_column_table = ''books'', fk_column_name = ''id''\<rparr>]\<rparr>]"

text \<open>
  C7. The claim: a pair of tables has at most one edge, and when several foreign keys join
  the same two tables the edge keeps the \<open>join_on\<close> of the last one visited. On
  \<open>editor_review_tables\<close> the two foreign keys of \<open>books\<close> to \<open>authors\<close> leave no
  edge between \<open>books\<close> and \<open>authors\<close>: the code names the owning table after the last
  table, so both land on the edge between \<open>reviews\<close> and \<open>authors\<close>, which keeps
  \<open>((reviews, editor_id), (authors, id))\<close>, the \<open>join_on\<close> of no foreign key of the
  schema.
\<close>

theorem create_graph_editor_review_tables:
  "(case create_graph editor_review_tables True of
      Inl e \<Rightarrow> None
    | Inr (g, io) \<Rightarrow>
        Some (edge_join_on g ''books'' ''authors'',
              edge_join_on g ''authors'' ''books'',
              edge_join_on g ''reviews'' ''authors''))
   = Some (None, None,
           Some ((''reviews'', ''editor_id''), (''authors'', ''id'')))"
proof -
  let ?a = "\<lparr>name = ''authors'', foreign_keys = []\<rparr>"
  let ?b = "\<lparr>name = ''books'', foreign_keys = [author_fk, editor_fk]\<rparr>"
  let ?r = "\<lparr>name = ''reviews'', foreign_keys =
         [\<lparr>constraint_column_keys = [''book_id''],
           fk_column_table = ''books'', fk_column_name = ''id''\<rparr>]\<rparr>"
  have h: "\<forall>t\<in>set editor_review_tables. \<forall>fk\<in>set (foreign_keys t). constraint_column_keys fk \<noteq> []"
    by (simp add: editor_review_tables_def author_fk_def editor_fk_def)
  obtain g io where all: "create_graph editor_review_tables True = Inr (g, io)
      \<and> (\<forall>u v. edge_join_on g u v = edge_join_on g v u)
      \<and> (\<forall>u d. map_of (adj g) u = Some d \<longrightarrow> distinct (dict_keys d))
      \<and> (\<forall>before t after fks1 fk fks2.
            editor_review_tables = before @ t # after \<and> foreign_keys t = fks1 @ fk # fks2
            \<and> (\<forall>fk'\<in>set fks2 \<union> (\<Union>x\<in>set after. set (foreign_keys x)).
                  fk_column_table fk' \<noteq> fk_column_table fk)
          \<longrightarrow> edge_join_on g (name (last editor_review_tables)) (fk_column_table fk)
              = Some ((name (last editor_review_tables), hd (constraint_column_keys fk)),
                      (fk_column_table fk, fk_column_name fk)))"
    using create_graph_edge_last_wins [OF h, of True] by (elim exE) (rule that)
  from all have g: "create_graph editor_review_tables True = Inr (g, io)" by (rule conjunct1)
  have l: "name (last editor_review_tables) = ''reviews''"
    by (simp add: editor_review_tables_def)
  have pre: "editor_review_tables = [?a] @ ?b # [?r] \<and> foreign_keys ?b = [author_fk] @ editor_fk # []
      \<and> (\<forall>fk'\<in>set [] \<union> (\<Union>x\<in>set [?r]. set (foreign_keys x)).
            fk_column_table fk' \<noteq> fk_column_table editor_fk)"
    by (simp add: editor_review_tables_def editor_fk_def)
  note lw = all [THEN conjunct2, THEN conjunct2, THEN conjunct2, rule_format]
  from lw [OF pre]
  have "edge_join_on g (name (last editor_review_tables)) (fk_column_table editor_fk)
     = Some ((name (last editor_review_tables), hd (constraint_column_keys editor_fk)),
             (fk_column_table editor_fk, fk_column_name editor_fk))" .
  then have e: "edge_join_on g ''reviews'' ''authors''
     = Some ((''reviews'', ''editor_id''), (''authors'', ''id''))"
    by (simp add: l editor_fk_def)
  have n1: "edge_join_on g ''books'' ''authors'' = None"
  proof (cases "edge_join_on g ''books'' ''authors''")
    case None
    then show ?thesis .
  next
    case (Some jo)
    from create_graph_origin [OF g Some] show ?thesis by (simp add: l)
  qed
  have n2: "edge_join_on g ''authors'' ''books'' = None"
  proof (cases "edge_join_on g ''authors'' ''books''")
    case None
    then show ?thesis .
  next
    case (Some jo)
    from create_graph_origin [OF g Some] show ?thesis by (simp add: l)
  qed
  from g n1 n2 e show ?thesis by simp
qed

text \<open>
  A table \<open>children\<close> with a composite foreign key \<open>(parent_a, parent_b)\<close> to
  \<open>parents(a, b)\<close>: two foreign keys that share the constraint's list of columns.
\<close>

definition composite_tables :: "table list" where
  "composite_tables =
     [\<lparr>name = ''parents'', foreign_keys = []\<rparr>,
      \<lparr>name = ''children'', foreign_keys =
         [\<lparr>constraint_column_keys = [''parent_a'', ''parent_b''],
           fk_column_table = ''parents'', fk_column_name = ''a''\<rparr>,
          \<lparr>constraint_column_keys = [''parent_a'', ''parent_b''],
           fk_column_table = ''parents'', fk_column_name = ''b''\<rparr>]\<rparr>]"

definition composite_graph :: graph where
  "composite_graph =
     \<lparr>node = [''parents'', ''children''],
      adj = [(''parents'', [(''children'', (''children'', ''parent_a''), (''parents'', ''b''))]),
             (''children'', [(''parents'', (''children'', ''parent_a''), (''parents'', ''b''))])]\<rparr>"

text \<open>
  C10. The owning-side column of every \<open>join_on\<close> is the first column of the constraint
  of some foreign key, and the columns after the first are omitted without an error:
  \<open>create_graph\<close> gives the same result when every list of constrained columns is cut
  after its first column.
\<close>

theorem create_graph_first_column_only:
  "create_graph (map first_column_only s) plot = create_graph s plot
   \<and> (\<forall>g io u v jo. create_graph s plot = Inr (g, io) \<and> edge_join_on g u v = Some jo \<longrightarrow>
         (\<exists>t\<in>set s. \<exists>fk\<in>set (foreign_keys t). \<exists>c cs.
            constraint_column_keys fk = c # cs
            \<and> jo = ((name (last s), c), (fk_column_table fk, fk_column_name fk))))"
proof (intro conjI allI impI)
  show "create_graph (map first_column_only s) plot = create_graph s plot"
    by (rule create_graph_first_column)
next
  fix g io u v jo
  assume "create_graph s plot = Inr (g, io) \<and> edge_join_on g u v = Some jo"
  then obtain t fk where t: "t \<in> set s" and fk: "fk \<in> set (foreign_keys t)"
    and ne: "constraint_column_keys fk \<noteq> []" and jo: "jo = join_on_of (name (last s)) fk"
    using create_graph_origin [of s plot g io u v jo] by auto
  from ne obtain c cs where "constraint_column_keys fk = c # cs"
    by (cases "constraint_column_keys fk") auto
  with t fk jo show "\<exists>t\<in>set s. \<exists>fk\<in>set (foreign_keys t). \<exists>c cs.
            constraint_column_keys fk = c # cs
            \<and> jo = ((name (last s), c), (fk_column_table fk, fk_column_name fk))"
    by (auto simp: join_on_of_def)
qed

theorem create_graph_first_column_only_witness:
  "create_graph (map first_column_only composite_tables) False = create_graph composite_tables False
   \<and> create_graph composite_tables False = Inr (composite_graph, [])
   \<and> edge_join_on composite_graph ''children'' ''parents''
       = Some ((''children'', ''parent_a''), (''parents'', ''b''))
   \<and> (\<exists>t\<in>set composite_tables. \<exists>fk\<in>set (foreign_keys t). \<exists>c cs.
          constraint_column_keys fk = c # cs
          \<and> ((''children'', ''parent_a''), (''parents'', ''b''))
              = ((name (last composite_tables), c), (fk_column_table fk, fk_column_name fk)))"
proof -
  have g: "create_graph composite_tables False = Inr (composite_graph, [])"
    by code_simp
  have e: "edge_join_on composite_graph ''children'' ''parents''
       = Some ((''children'', ''parent_a''), (''parents'', ''b''))"
    by code_simp
  note T = create_graph_first_column_only [of composite_tables False]
  from T have 1: "create_graph (map first_column_only composite_tables) False
      = create_graph composite_tables False"
    by (rule conjunct1)
  from T [THEN conjunct2, rule_format, OF conjI [OF g e]]
  have 2: "\<exists>t\<in>set composite_tables. \<exists>fk\<in>set (foreign_keys t). \<exists>c cs.
          constraint_column_keys fk = c # cs
          \<and> ((''children'', ''parent_a''), (''parents'', ''b''))
              = ((name (last composite_tables), c), (fk_column_table fk, fk_column_name fk))" .
  from 1 g e 2 show ?thesis by (intro conjI)
qed

text \<open>
  The library catalog with a further table \<open>orphans\<close>, which has no foreign key and is
  referenced by none.
\<close>

definition orphan_tables :: "table list" where
  "orphan_tables =
     [\<lparr>name = ''authors'', foreign_keys = []\<rparr>,
      \<lparr>name = ''catalogs'', foreign_keys = []\<rparr>,
      \<lparr>name = ''orphans'', foreign_keys = []\<rparr>,
      \<lparr>name = ''books'', foreign_keys = [author_fk, catalog_fk]\<rparr>]"

definition orphan_graph :: graph where
  "orphan_graph =
     \<lparr>node = [''authors'', ''catalogs'', ''orphans'', ''books''],
      adj = [(''authors'', [(''books'', (''books'', ''author_id''), (''authors'', ''id''))]),
             (''catalogs'', [(''books'', (''books'', ''catalog_id''), (''catalogs'', ''id''))]),
             (''orphans'', []),
             (''books'', [(''authors'', (''books'', ''author_id''), (''authors'', ''id'')),
                         (''catalogs'', (''books'', ''catalog_id''), (''catalogs'', ''id''))])]\<rparr>"

lemma create_graph_orphan: "create_graph orphan_tables False = Inr (orphan_graph, [])"
  by code_simp

text \<open>
  C4. For every graph and every two of its nodes \<open>A\<close> and \<open>B\<close>, \<open>resolve_join\<close> fails
  with the error of networkx for a missing path, \<open>NetworkXNoPath\<close>, if and only if \<open>A\<close>
  and \<open>B\<close> are not connected; when they are connected it returns the joins of a path from
  \<open>A\<close> to \<open>B\<close>, one join per table of the path after \<open>A\<close>, in the order of the path.
\<close>

theorem resolve_join_no_path_iff:
  assumes "graph_inv g" and "A \<in> set (node g)" and "B \<in> set (node g)"
  shows "(resolve_join g A B = Some (Inl NetworkXNoPath) \<longleftrightarrow> \<not> connected g A B)
       \<and> (connected g A B \<longrightarrow>
            (\<exists>path plan. shortest_path g A B = Some (Inr path) \<and> is_simple_path g A B path
               \<and> resolve_join g A B = Some (Inr plan) \<and> map fst plan = tl path))"
proof (cases "connected g A B")
  case True
  with shortest_path_result [OF assms] obtain path where
    p: "shortest_path g A B = Some (Inr path)" "is_simple_path g A B path"
    by blast
  from p(2) have "successively (has_edge g) path" "distinct path"
    by (simp_all add: is_simple_path_def)
  from joins_of_path_simple [OF this] obtain plan where
    plan: "joins_of_path g path = Inr plan" "map fst plan = tl path"
    by blast
  from p(1) plan(1) have r: "resolve_join g A B = Some (Inr plan)"
    by (simp add: resolve_join_def)
  with True p plan(2) show ?thesis by auto
next
  case False
  with shortest_path_result [OF assms] have "shortest_path g A B = Some (Inl NetworkXNoPath)"
    by simp
  then have "resolve_join g A B = Some (Inl NetworkXNoPath)" by (simp add: resolve_join_def)
  with False show ?thesis by simp
qed

theorem resolve_join_no_path_iff_witness:
  "resolve_join orphan_graph ''orphans'' ''books'' = Some (Inl NetworkXNoPath)
   \<and> \<not> connected orphan_graph ''orphans'' ''books''
   \<and> connected orphan_graph ''authors'' ''catalogs''
   \<and> resolve_join orphan_graph ''authors'' ''catalogs''
       = Some (Inr [(''books'', (''books'', ''author_id''), (''authors'', ''id'')),
                    (''catalogs'', (''books'', ''catalog_id''), (''catalogs'', ''id''))])"
proof -
  have g: "graph_inv orphan_graph" using create_graph_orphan by (rule graph_inv_create_graph)
  have n: "''orphans'' \<in> set (node orphan_graph)" "''books'' \<in> set (node orphan_graph)"
    "''authors'' \<in> set (node orphan_graph)" "''catalogs'' \<in> set (node orphan_graph)"
    by (simp_all add: orphan_graph_def)
  have r1: "resolve_join orphan_graph ''orphans'' ''books'' = Some (Inl NetworkXNoPath)"
    by code_simp
  have r2: "resolve_join orphan_graph ''authors'' ''catalogs''
       = Some (Inr [(''books'', (''books'', ''author_id''), (''authors'', ''id'')),
                    (''catalogs'', (''books'', ''catalog_id''), (''catalogs'', ''id''))])"
    by code_simp
  from resolve_join_no_path_iff [OF g n(1,2)] r1
  have c1: "\<not> connected orphan_graph ''orphans'' ''books''" by simp
  from resolve_join_no_path_iff [OF g n(3,4)] r2
  have c2: "connected orphan_graph ''authors'' ''catalogs''" by auto
  from r1 r2 c1 c2 show ?thesis by simp
qed

text \<open>
  C6. In a graph whose every \<open>join_on\<close> names the two tables of its edge, as the graphs
  of \<open>create_graph\<close> do, every successful \<open>resolve_join\<close> follows a path without
  repetition from the start table to the end table, and its \<open>i\<close>-th join introduces the
  table \<open>i + 1\<close> of the path with the \<open>join_on\<close> of the edge between the tables \<open>i\<close>
  and \<open>i + 1\<close>: one side of the predicate is a column reference of the table reached
  before, the other side one of the table introduced, whichever of the two owns the foreign
  key.
\<close>

theorem resolve_join_steps:
  assumes "graph_inv g" and "join_on_names_ends g"
    and "resolve_join g A B = Some (Inr plan)"
  shows "\<exists>path. shortest_path g A B = Some (Inr path) \<and> is_simple_path g A B path
       \<and> length plan = length path - 1
       \<and> (\<forall>i<length plan. \<exists>l r. plan ! i = (path ! Suc i, l, r)
             \<and> edge_join_on g (path ! i) (path ! Suc i) = Some (l, r)
             \<and> ((fst l = path ! i \<and> fst r = path ! Suc i)
                \<or> (fst l = path ! Suc i \<and> fst r = path ! i)))"
proof -
  from resolve_join_Inr [OF assms(3)] obtain path where
    n: "A \<in> set (node g)" "B \<in> set (node g)"
    and p: "shortest_path g A B = Some (Inr path)" and j: "joins_of_path g path = Inr plan"
    by blast
  from shortest_path_result [OF assms(1) n] p have sp: "is_simple_path g A B path"
    by (cases "connected g A B") auto
  then have "successively (has_edge g) path" "distinct path"
    by (simp_all add: is_simple_path_def)
  from joins_of_path_simple [OF this] j have
    len: "length plan = length path - 1"
    and st: "\<forall>i<length plan. \<exists>l r. plan ! i = (path ! Suc i, l, r)
           \<and> edge_join_on g (path ! i) (path ! Suc i) = Some (l, r)"
    by auto
  have "\<exists>l r. plan ! i = (path ! Suc i, l, r)
             \<and> edge_join_on g (path ! i) (path ! Suc i) = Some (l, r)
             \<and> ((fst l = path ! i \<and> fst r = path ! Suc i)
                \<or> (fst l = path ! Suc i \<and> fst r = path ! i))" if "i < length plan" for i
  proof -
    from st that obtain l r where
      e: "plan ! i = (path ! Suc i, l, r)" "edge_join_on g (path ! i) (path ! Suc i) = Some (l, r)"
      by blast
    from assms(2) e(2) have "(fst l = path ! i \<and> fst r = path ! Suc i)
                \<or> (fst l = path ! Suc i \<and> fst r = path ! i)"
      unfolding join_on_names_ends_def by blast
    with e show ?thesis by blast
  qed
  with p sp len show ?thesis by blast
qed

theorem resolve_join_steps_witness:
  "resolve_join library_graph ''authors'' ''catalogs''
     = Some (Inr [(''books'', (''books'', ''author_id''), (''authors'', ''id'')),
                  (''catalogs'', (''books'', ''catalog_id''), (''catalogs'', ''id''))])
   \<and> shortest_path library_graph ''authors'' ''catalogs''
       = Some (Inr [''authors'', ''books'', ''catalogs''])
   \<and> (\<exists>path. shortest_path library_graph ''authors'' ''catalogs'' = Some (Inr path)
        \<and> is_simple_path library_graph ''authors'' ''catalogs'' path
        \<and> length [(''books'', (''books'', ''author_id''), (''authors'', ''id'')),
                   (''catalogs'', (''books'', ''catalog_id''), (''catalogs'', ''id''))]
            = length path - 1)"
proof -
  have r: "resolve_join library_graph ''authors'' ''catalogs''
     = Some (Inr [(''books'', (''books'', ''author_id''), (''authors'', ''id'')),
                  (''catalogs'', (''books'', ''catalog_id''), (''catalogs'', ''id''))])"
    by code_simp
  have e: "join_on_names_ends library_graph"
    using create_graph_library by (rule create_graph_names_ends)
  have p: "shortest_path library_graph ''authors'' ''catalogs''
       = Some (Inr [''authors'', ''books'', ''catalogs''])"
    by code_simp
  from resolve_join_steps [OF graph_inv_library_graph e r] r p show ?thesis by blast
qed

end
